theory Spec2Isabelle
  imports Main "HOL-Library.Multiset"
begin

section \<open>Records of the remote service\<close>

text \<open>
  The program reads three kinds of records from the Classroom service. Only the fields
  the program touches are kept. \<open>classroom.Date\<close> has three \<open>int64\<close> fields; the
  program only prints them, so no arithmetic can overflow and they are modelled as \<open>int\<close>.
  A nil \<open>DueDate\<close> pointer is \<open>None\<close>.
\<close>

record Date =
  Year :: int
  Month :: int
  Day :: int

record StudentSubmission =
  State :: string

record CourseWork =
  CourseId :: string
  Id_cw :: string
  Title :: string
  AlternateLink :: string
  DueDate :: "Date option"

text \<open>
  Go's \<open>error\<close> values of the two kinds the program can see: the error of
  \<open>time.Parse\<close> (carrying the text that did not parse) and the error of a remote call.
\<close>

datatype error = ParseError string | RemoteError string

text \<open>
  The two read operations of \<open>*classroom.Service\<close> the program calls, each returning
  a result or an error: \<open>srv.Courses.CourseWork.List(courseId).Do()\<close> and
  \<open>srv.Courses.CourseWork.StudentSubmissions.List(courseId, id).Do()\<close>.
\<close>

record Service =
  CourseWork_List :: "string \<Rightarrow> error + CourseWork list"
  StudentSubmissions_List :: "string \<Rightarrow> string \<Rightarrow> error + StudentSubmission list"

text \<open>The remote calls a piece of code performs are recorded, so that a theorem can say
  that a call was, or was not, made.\<close>

datatype call = ListCourseWork string | ListSubmissions string string

section \<open>The Go standard library functions the program calls\<close>

subsection \<open>Decimal digits\<close>

text \<open>
  Go computes with the bytes of a string: a digit \<open>k\<close> is printed as the byte
  \<open>'0' + k\<close>, a byte \<open>c\<close> is a digit when it is neither below \<open>'0'\<close> nor above
  \<open>'9'\<close>, and its value is then \<open>c - '0'\<close>.
\<close>

definition digit_char :: "nat \<Rightarrow> char" where
  "digit_char k = char_of (of_char (CHR ''0'') + k)"

definition digit_val :: "char \<Rightarrow> nat option" where
  "digit_val c =
     (if of_char c < (of_char (CHR ''0'') :: nat) \<or> (of_char (CHR ''9'') :: nat) < of_char c
      then None
      else Some (of_char c - of_char (CHR ''0'')))"

text \<open>The decimal digits of a natural number, most significant first.\<close>

fun digits :: "nat \<Rightarrow> string" where
  "digits n = (if n < 10 then [digit_char n] else digits (n div 10) @ [digit_char (n mod 10)])"

declare digits.simps [simp del]

definition zero_pad :: "nat \<Rightarrow> string \<Rightarrow> string" where
  "zero_pad w s = replicate (w - length s) (CHR ''0'') @ s"

subsection \<open>fmt.Sprintf\<close>

text \<open>
  The verb \<open>%d\<close> prints a minus sign and the decimal digits. The verb \<open>%02d\<close> pads
  with zeros to width 2, and the sign counts towards the width.
\<close>

definition fmt_d :: "int \<Rightarrow> string" where
  "fmt_d i = (if i < 0 then CHR ''-'' # digits (nat (- i)) else digits (nat i))"

definition fmt_02d :: "int \<Rightarrow> string" where
  "fmt_02d i =
     (if i < 0 then CHR ''-'' # zero_pad 1 (digits (nat (- i))) else zero_pad 2 (digits (nat i)))"

text \<open>\<open>fmt.Sprintf("%d-%02d-%02d", y, m, d)\<close>\<close>

definition Sprintf_date :: "int \<Rightarrow> int \<Rightarrow> int \<Rightarrow> string" where
  "Sprintf_date y m d = fmt_d y @ ''-'' @ fmt_02d m @ ''-'' @ fmt_02d d"

text \<open>\<open>fmt.Sprintf("%s (%s) link:%s\n", title, id, link)\<close>\<close>

definition Sprintf_line :: "string \<Rightarrow> string \<Rightarrow> string \<Rightarrow> string" where
  "Sprintf_line title ident link =
     title @ '' ('' @ ident @ '') link:'' @ link @ [CHR 0x0A]"

subsection \<open>Package time\<close>

text \<open>
  A \<open>time.Time\<close> denotes an instant, counted here in nanoseconds since the zero time
  (January 1 of year 1, 00:00 UTC), the origin \<open>Truncate\<close> works from. A
  \<open>time.Duration\<close> is a number of nanoseconds.

  A value returned by \<open>time.Now()\<close> is the only kind of \<open>Time\<close> the program formats,
  so only a clock reading carries its presentation: the civil date and the time of day
  in the process's local \<open>Location\<close>, and that location's offset east of UTC.
\<close>

type_synonym instant = int

record Now =
  year :: int
  month :: int
  day :: int
  nsec_of_day :: int
  zone_offset :: int

definition Hour :: int where
  "Hour = 3600 * 1000000000"

definition isLeap :: "int \<Rightarrow> bool" where
  "isLeap y = (y mod 4 = 0 \<and> (y mod 100 \<noteq> 0 \<or> y mod 400 = 0))"

definition daysIn :: "int \<Rightarrow> int \<Rightarrow> int" where
  "daysIn m y =
     (if m = 2 then (if isLeap y then 29 else 28)
      else if m = 4 \<or> m = 6 \<or> m = 9 \<or> m = 11 then 30 else 31)"

text \<open>Days from the start of the year to the start of month \<open>m\<close> in a common year.\<close>

definition daysBefore :: "int \<Rightarrow> int" where
  "daysBefore m =
     (if m = 1 then 0 else if m = 2 then 31 else if m = 3 then 59 else if m = 4 then 90
      else if m = 5 then 120 else if m = 6 then 151 else if m = 7 then 181
      else if m = 8 then 212 else if m = 9 then 243 else if m = 10 then 273
      else if m = 11 then 304 else 334)"

text \<open>
  The number of days from the zero time to the start of the given civil date of the
  proleptic Gregorian calendar, as \<open>time.Date\<close> counts them: whole years with their
  leap days, then the months before, one more day after February of a leap year, then
  the days of the month.
\<close>

definition daysSinceZero :: "int \<Rightarrow> int \<Rightarrow> int \<Rightarrow> int" where
  "daysSinceZero y m d =
     365 * (y - 1) + (y - 1) div 4 - (y - 1) div 100 + (y - 1) div 400
     + daysBefore m + (if isLeap y \<and> 3 \<le> m then 1 else 0) + (d - 1)"

text \<open>The day count splits into the first day of the year and the day within the year.\<close>

definition year_start :: "int \<Rightarrow> int" where
  "year_start y = 365 * (y - 1) + (y - 1) div 4 - (y - 1) div 100 + (y - 1) div 400"

definition day_of_year :: "int \<Rightarrow> int \<Rightarrow> int \<Rightarrow> int" where
  "day_of_year y m d = daysBefore m + (if isLeap y \<and> 3 \<le> m then 1 else 0) + (d - 1)"

text \<open>The instant of a clock reading: its civil time read in its zone.\<close>

definition instant_of :: "Now \<Rightarrow> instant" where
  "instant_of t =
     (daysSinceZero (year t) (month t) (day t) * 86400 - zone_offset t) * 1000000000
     + nsec_of_day t"

text \<open>
  \<open>t.Truncate(d)\<close> rounds the instant down to a multiple of \<open>d\<close> since the zero time;
  it works on the absolute time, not on the presentation in the zone.
  \<open>t.Before(u)\<close> compares instants.
\<close>

definition Truncate :: "instant \<Rightarrow> int \<Rightarrow> instant" where
  "Truncate t d = (if d \<le> 0 then t else t - t mod d)"

definition Before :: "instant \<Rightarrow> instant \<Rightarrow> bool" where
  "Before t u = (t < u)"

text \<open>
  \<open>t.Format("2006-01-02")\<close> prints the civil date of the reading in its zone, each
  field with \<open>appendInt\<close>: a minus sign, then the digits padded with zeros to the width.
\<close>

definition appendInt :: "int \<Rightarrow> nat \<Rightarrow> string" where
  "appendInt x width =
     (if x < 0 then CHR ''-'' # zero_pad width (digits (nat (- x)))
      else zero_pad width (digits (nat x)))"

definition Format_date :: "Now \<Rightarrow> string" where
  "Format_date t = appendInt (year t) 4 @ ''-'' @ appendInt (month t) 2 @ ''-'' @ appendInt (day t) 2"

text \<open>The helpers of \<open>time.Parse\<close>.\<close>

definition isDigit :: "string \<Rightarrow> nat \<Rightarrow> bool" where
  "isDigit s i = (i < length s \<and> digit_val (s ! i) \<noteq> None)"

fun leadingInt :: "nat \<Rightarrow> string \<Rightarrow> nat \<times> string" where
  "leadingInt x [] = (x, [])"
| "leadingInt x (c # s) =
     (case digit_val c of None \<Rightarrow> (x, c # s) | Some v \<Rightarrow> leadingInt (x * 10 + v) s)"

definition atoi :: "string \<Rightarrow> int option" where
  "atoi s =
     (let neg = (s \<noteq> [] \<and> hd s = CHR ''-'');
          s' = (if s \<noteq> [] \<and> (hd s = CHR ''-'' \<or> hd s = CHR ''+'') then tl s else s);
          (q, rem) = leadingInt 0 s'
      in if rem \<noteq> [] then None else Some (if neg then - int q else int q))"

text \<open>\<open>getnum(s, true)\<close>: exactly two digits.\<close>

definition getnum :: "string \<Rightarrow> (int \<times> string) option" where
  "getnum s =
     (case s of
        a # b # r \<Rightarrow>
          (case digit_val a of
             None \<Rightarrow> None
           | Some x \<Rightarrow>
              (case digit_val b of
                 None \<Rightarrow> None
               | Some y \<Rightarrow> Some (int x * 10 + int y, r)))
      | _ \<Rightarrow> None)"

text \<open>\<open>skip(value, "-")\<close>: the literal text between two fields of the layout.\<close>

definition skip_dash :: "string \<Rightarrow> string option" where
  "skip_dash s = (case s of [] \<Rightarrow> None | c # r \<Rightarrow> if c = CHR ''-'' then Some r else None)"

text \<open>
  \<open>time.Parse("2006-01-02", value)\<close>: a year of four digits, a month and a day of two
  digits each, the month within 1..12, no text left over, and the day within the
  month. The result is midnight UTC of that date.
\<close>

definition Parse_date :: "string \<Rightarrow> error + instant" where
  "Parse_date v =
     (if length v < 4 \<or> \<not> isDigit v 0 then Inl (ParseError v)
      else case atoi (take 4 v) of
        None \<Rightarrow> Inl (ParseError v)
      | Some y \<Rightarrow>
         (case skip_dash (drop 4 v) of
            None \<Rightarrow> Inl (ParseError v)
          | Some v1 \<Rightarrow>
             (case getnum v1 of
                None \<Rightarrow> Inl (ParseError v)
              | Some (m, v2) \<Rightarrow>
                 if m \<le> 0 \<or> 12 < m then Inl (ParseError v)
                 else (case skip_dash v2 of
                    None \<Rightarrow> Inl (ParseError v)
                  | Some v3 \<Rightarrow>
                     (case getnum v3 of
                        None \<Rightarrow> Inl (ParseError v)
                      | Some (d, v4) \<Rightarrow>
                         if v4 \<noteq> [] then Inl (ParseError v)
                         else if d < 1 \<or> daysIn m y < d then Inl (ParseError v)
                         else Inr (daysSinceZero y m d * 86400 * 1000000000))))))"

section \<open>The visibility filter\<close>

text \<open>
  The loop over the submission records: the first record in state \<open>TURNED_IN\<close> ends it
  with \<open>false\<close>; running off the end gives \<open>true\<close>.
\<close>

fun submissions_loop :: "StudentSubmission list \<Rightarrow> bool" where
  "submissions_loop [] = True"
| "submissions_loop (s # ss) = (if State s = ''TURNED_IN'' then False else submissions_loop ss)"

text \<open>
  \<open>isCourseworkVisible\<close>. The clock is read once when the due date is absent (the
  reading that is formatted) and once more in every call (the reading that is
  truncated); the two readings are the pair \<open>clk\<close>. The result is the pair the Go
  function returns (a nil error is \<open>None\<close>), together with the remote calls made. The
  trace regions are instrumentation and are left out.
\<close>

definition isCourseworkVisible ::
  "Service \<Rightarrow> Now \<times> Now \<Rightarrow> CourseWork \<Rightarrow> (bool \<times> error option) \<times> call list" where
  "isCourseworkVisible srv clk c =
     (let date = (case DueDate c of
                    Some dd \<Rightarrow> Sprintf_date (Year dd) (Month dd) (Day dd)
                  | None \<Rightarrow> Format_date (fst clk))
      in case Parse_date date of
           Inl err \<Rightarrow> ((False, Some err), [])
         | Inr parsedDate \<Rightarrow>
            (let currentDate = Truncate (instant_of (snd clk)) (24 * Hour)
             in if Before parsedDate currentDate then ((False, None), [])
                else (case StudentSubmissions_List srv (CourseId c) (Id_cw c) of
                        Inl err \<Rightarrow> ((False, Some err), [ListSubmissions (CourseId c) (Id_cw c)])
                      | Inr wr \<Rightarrow>
                          ((submissions_loop wr, None),
                           [ListSubmissions (CourseId c) (Id_cw c)]))))"

section \<open>The assignment lister\<close>

text \<open>
  How a call of \<open>listCourseWorkFromCourseId\<close> ends: it returns, or \<open>log.Fatalf\<close>
  logs the error and ends the whole process with status 1 (\<open>os.Exit(1)\<close>).
\<close>

datatype outcome = Returned | Fatal error

text \<open>
  The goroutine started for one assignment: it runs the visibility check and sends the
  assignment on the channel only if the check says visible and gives no error. Its
  effects are what it sends on \<open>ch\<close> and the remote calls it makes.
\<close>

definition check_and_send ::
  "Service \<Rightarrow> Now \<times> Now \<Rightarrow> CourseWork \<Rightarrow> CourseWork multiset \<times> call multiset" where
  "check_and_send srv clk c =
     (case isCourseworkVisible srv clk c of
        ((isVisible, err), calls) \<Rightarrow>
          (if isVisible \<and> err = None then {#c#} else {#}, mset calls))"

text \<open>
  The loop over \<open>r.CourseWork\<close> starts one such goroutine per assignment. The
  goroutines run concurrently and the scheduler orders their sends, so what they send
  together is a multiset. Each goroutine reads the clock for itself: \<open>clks j\<close> are
  the readings of the goroutine of the \<open>j\<close>-th assignment.
\<close>

fun spawn_checks ::
  "Service \<Rightarrow> (nat \<Rightarrow> Now \<times> Now) \<Rightarrow> nat \<Rightarrow> CourseWork list
     \<Rightarrow> CourseWork multiset \<times> call multiset" where
  "spawn_checks srv clks j [] = ({#}, {#})"
| "spawn_checks srv clks j (c # cs) =
     (fst (check_and_send srv (clks j) c) + fst (spawn_checks srv clks (Suc j) cs),
      snd (check_and_send srv (clks j) c) + snd (spawn_checks srv clks (Suc j) cs))"

text \<open>
  \<open>listCourseWorkFromCourseId\<close>, for a call that runs to its end: the deferred
  \<open>wg2.Wait()\<close> lets it return only when every goroutine it started has finished.
  The result is how the call ends, what was sent on \<open>ch\<close> and the remote calls made.
\<close>

definition listCourseWorkFromCourseId ::
  "Service \<Rightarrow> (nat \<Rightarrow> Now \<times> Now) \<Rightarrow> string
     \<Rightarrow> outcome \<times> CourseWork multiset \<times> call multiset" where
  "listCourseWorkFromCourseId srv clks courseId =
     (case CourseWork_List srv courseId of
        Inl err \<Rightarrow> (Fatal err, {#}, {#ListCourseWork courseId#})
      | Inr r \<Rightarrow>
          if length r \<le> 0 then (Returned, {#}, {#ListCourseWork courseId#})
          else (Returned,
                fst (spawn_checks srv clks 0 r),
                add_mset (ListCourseWork courseId) (snd (spawn_checks srv clks 0 r))))"

section \<open>The aggregator\<close>

text \<open>
  The loop \<open>for c := range ch\<close> of \<open>_main\<close>, over the assignments it receives until
  the channel is closed. Standard output is the list of the texts written, one per call
  of \<open>fmt.Printf\<close>.
\<close>

fun main_range_loop :: "string list \<Rightarrow> CourseWork list \<Rightarrow> string list" where
  "main_range_loop out [] = out"
| "main_range_loop out (c # cs) =
     main_range_loop (out @ [Sprintf_line (Title c) (Id_cw c) (AlternateLink c)]) cs"

section \<open>The process\<close>

text \<open>
  \<open>_main\<close> starts one goroutine per course (lines 184 to 187), then one goroutine
  that waits for them and closes the channel (lines 188 to 192), and then receives from
  the channel until it is closed (lines 194 to 196). The goroutine of a course runs
  \<open>listCourseWorkFromCourseId\<close>, which starts one goroutine per assignment (lines 84
  to 92). The goroutines run concurrently: the model runs them one statement at a time,
  in whatever order a scheduler picks them.

  Where \<open>_main\<close> can be: about to run iteration \<open>k\<close> of the loop over \<open>courseIds\<close> (after
  the last iteration, about to start the closing goroutine); waiting to receive from
  \<open>ch\<close>; about to print the assignment it has received; returned.
\<close>

datatype mpc = M_spawn nat | M_recv | M_print CourseWork | M_done

text \<open>
  Where the closing goroutine can be: not started; at \<open>wg.Wait()\<close>; at \<open>close(ch)\<close>;
  finished.
\<close>

datatype kpc = K_unborn | K_wait | K_close | K_done

text \<open>
  Where the goroutine of a course can be: not started; at the listing call (line 75);
  at \<open>log.Fatalf\<close> (line 77) with the error of the call; about to run iteration \<open>j\<close>
  of the loop over \<open>r.CourseWork\<close> (after the last iteration, about to return); at the
  deferred \<open>wg2.Wait()\<close>; at the deferred \<open>wg.Done()\<close>; finished.
\<close>

datatype lpc = L_unborn | L_list | L_fatal error | L_spawn nat | L_wait | L_ret | L_done

text \<open>
  Where the goroutine of an assignment can be: not started; at the call of
  \<open>isCourseworkVisible\<close> (line 88); at the send \<open>ch <- c\<close> (line 89); at the deferred
  \<open>wg2.Done()\<close>; finished.
\<close>

datatype wpc = W_unborn | W_check | W_send | W_ret | W_done

text \<open>
  The state of the process: where every goroutine is (the goroutine of assignment \<open>j\<close>
  of course \<open>i\<close> is \<open>workerpc s i j\<close>), the counter of \<open>wg\<close> and of the \<open>wg2\<close> of every
  course, whether \<open>ch\<close> is closed and how many times \<open>close(ch)\<close> has been executed,
  the texts written to standard output, and the exit status once the process has
  ended: 0 when \<open>main\<close> returns, 1 from \<open>log.Fatalf\<close> (\<open>os.Exit(1)\<close>), 2 from a run-time
  panic. While the process runs the exit status is \<open>None\<close>.
\<close>

record proc =
  mainpc :: mpc
  closerpc :: kpc
  listerpc :: "nat \<Rightarrow> lpc"
  workerpc :: "nat \<Rightarrow> nat \<Rightarrow> wpc"
  wg :: nat
  wg2 :: "nat \<Rightarrow> nat"
  ch_closed :: bool
  n_close :: nat
  stdout :: "string list"
  exit_status :: "nat option"

text \<open>
  What the process runs on: the remote service, the course identifiers of \<open>_main\<close>, and
  the clock readings of the visibility check of assignment \<open>j\<close> of course \<open>i\<close>.
\<close>

record world =
  w_srv :: Service
  w_courseIds :: "string list"
  w_clocks :: "nat \<Rightarrow> nat \<Rightarrow> Now \<times> Now"

text \<open>
  \<open>r.CourseWork\<close> of course \<open>i\<close>: what its listing call returns. When the call fails the
  goroutine never reaches the loop over it.
\<close>

definition assignments :: "world \<Rightarrow> nat \<Rightarrow> CourseWork list" where
  "assignments w i =
     (case CourseWork_List (w_srv w) (w_courseIds w ! i) of Inl err \<Rightarrow> [] | Inr r \<Rightarrow> r)"

text \<open>The condition \<open>isVisible && err == nil\<close> of line 88, for assignment \<open>j\<close> of course \<open>i\<close>.\<close>

definition visible :: "world \<Rightarrow> nat \<Rightarrow> nat \<Rightarrow> bool" where
  "visible w i j =
     (case isCourseworkVisible (w_srv w) (w_clocks w i j) (assignments w i ! j) of
        ((isVisible, err), calls) \<Rightarrow> isVisible \<and> err = None)"

text \<open>The goroutines.\<close>

datatype tid = Main | Closer | Lister nat | Worker nat nat

text \<open>A run-time panic ends the process with status 2.\<close>

definition panic :: "proc \<Rightarrow> proc" where
  "panic s = s\<lparr>exit_status := Some 2\<rparr>"

text \<open>
  One statement of \<open>_main\<close>. In the loop over \<open>courseIds\<close>: \<open>wg.Add(1)\<close> and the start of
  the goroutine of course \<open>k\<close>. After the loop: the start of the closing goroutine.
  In the loop over \<open>ch\<close>: the receive is taken together with the send of a goroutine (see
  \<open>step_worker\<close>); on a closed channel the loop ends, \<open>_main\<close> and \<open>main\<close> return and the
  process ends with status 0; otherwise \<open>_main\<close> waits. After a receive: \<open>fmt.Printf\<close>.
\<close>

definition step_main :: "world \<Rightarrow> proc \<Rightarrow> proc option" where
  "step_main w s =
     (case mainpc s of
        M_spawn k \<Rightarrow>
          if k < length (w_courseIds w)
          then Some (s\<lparr>wg := wg s + 1, listerpc := (listerpc s)(k := L_list),
                        mainpc := M_spawn (Suc k)\<rparr>)
          else Some (s\<lparr>closerpc := K_wait, mainpc := M_recv\<rparr>)
      | M_recv \<Rightarrow>
          if ch_closed s then Some (s\<lparr>mainpc := M_done, exit_status := Some 0\<rparr>) else None
      | M_print c \<Rightarrow>
          Some (s\<lparr>stdout := stdout s @ [Sprintf_line (Title c) (Id_cw c) (AlternateLink c)],
                   mainpc := M_recv\<rparr>)
      | M_done \<Rightarrow> None)"

text \<open>
  One statement of the closing goroutine: \<open>wg.Wait()\<close> returns when the counter is
  zero; \<open>close(ch)\<close> panics on a closed channel.
\<close>

definition step_closer :: "proc \<Rightarrow> proc option" where
  "step_closer s =
     (case closerpc s of
        K_unborn \<Rightarrow> None
      | K_wait \<Rightarrow> if wg s = 0 then Some (s\<lparr>closerpc := K_close\<rparr>) else None
      | K_close \<Rightarrow>
          if ch_closed s then Some (panic s)
          else Some (s\<lparr>ch_closed := True, n_close := n_close s + 1, closerpc := K_done\<rparr>)
      | K_done \<Rightarrow> None)"

text \<open>
  One statement of the goroutine of course \<open>i\<close>. The listing call: on an error the
  goroutine goes to \<open>log.Fatalf\<close>; with no assignment the function returns, which
  runs the deferred \<open>wg.Done()\<close>; otherwise it goes on to the loop. \<open>log.Fatalf\<close> ends
  the process with status 1; until it runs, the other goroutines go on. In the loop:
  \<open>wg2.Add(1)\<close> and the start of the goroutine of assignment \<open>j\<close>. After the loop the
  function returns, which runs the deferred calls, last deferred first: \<open>wg2.Wait()\<close>,
  then \<open>wg.Done()\<close>, which panics on a counter that is zero.
\<close>

definition step_lister :: "world \<Rightarrow> proc \<Rightarrow> nat \<Rightarrow> proc option" where
  "step_lister w s i =
     (case listerpc s i of
        L_unborn \<Rightarrow> None
      | L_list \<Rightarrow>
          (case CourseWork_List (w_srv w) (w_courseIds w ! i) of
             Inl err \<Rightarrow> Some (s\<lparr>listerpc := (listerpc s)(i := L_fatal err)\<rparr>)
           | Inr r \<Rightarrow>
               if length r \<le> 0 then Some (s\<lparr>listerpc := (listerpc s)(i := L_ret)\<rparr>)
               else Some (s\<lparr>listerpc := (listerpc s)(i := L_spawn 0)\<rparr>))
      | L_fatal err \<Rightarrow> Some (s\<lparr>exit_status := Some 1\<rparr>)
      | L_spawn j \<Rightarrow>
          if j < length (assignments w i)
          then Some (s\<lparr>wg2 := (wg2 s)(i := wg2 s i + 1),
                        workerpc := (workerpc s)(i := (workerpc s i)(j := W_check)),
                        listerpc := (listerpc s)(i := L_spawn (Suc j))\<rparr>)
          else Some (s\<lparr>listerpc := (listerpc s)(i := L_wait)\<rparr>)
      | L_wait \<Rightarrow>
          if wg2 s i = 0 then Some (s\<lparr>listerpc := (listerpc s)(i := L_ret)\<rparr>) else None
      | L_ret \<Rightarrow>
          if wg s = 0 then Some (panic s)
          else Some (s\<lparr>wg := wg s - 1, listerpc := (listerpc s)(i := L_done)\<rparr>)
      | L_done \<Rightarrow> None)"

text \<open>
  One statement of the goroutine of assignment \<open>j\<close> of course \<open>i\<close>. The visibility
  check decides whether it sends. The channel has no buffer: the send happens together
  with a receive of \<open>_main\<close>, which then holds the assignment, and waits while \<open>_main\<close>
  is not receiving; a send on a closed channel panics. Last the deferred \<open>wg2.Done()\<close>.
\<close>

definition step_worker :: "world \<Rightarrow> proc \<Rightarrow> nat \<Rightarrow> nat \<Rightarrow> proc option" where
  "step_worker w s i j =
     (case workerpc s i j of
        W_unborn \<Rightarrow> None
      | W_check \<Rightarrow>
          if visible w i j
          then Some (s\<lparr>workerpc := (workerpc s)(i := (workerpc s i)(j := W_send))\<rparr>)
          else Some (s\<lparr>workerpc := (workerpc s)(i := (workerpc s i)(j := W_ret))\<rparr>)
      | W_send \<Rightarrow>
          if ch_closed s then Some (panic s)
          else (case mainpc s of
                  M_recv \<Rightarrow>
                    Some (s\<lparr>mainpc := M_print (assignments w i ! j),
                             workerpc := (workerpc s)(i := (workerpc s i)(j := W_ret))\<rparr>)
                | _ \<Rightarrow> None)
      | W_ret \<Rightarrow>
          if wg2 s i = 0 then Some (panic s)
          else Some (s\<lparr>wg2 := (wg2 s)(i := wg2 s i - 1),
                        workerpc := (workerpc s)(i := (workerpc s i)(j := W_done))\<rparr>)
      | W_done \<Rightarrow> None)"

text \<open>
  One step of the process: the goroutine the scheduler picks runs one statement.
  \<open>None\<close> says that it cannot run now (it waits, or is not started, or has finished).
  Once the process has ended no goroutine runs any more.
\<close>

definition step :: "world \<Rightarrow> proc \<Rightarrow> tid \<Rightarrow> proc option" where
  "step w s t =
     (if exit_status s \<noteq> None then None
      else case t of
        Main \<Rightarrow> step_main w s
      | Closer \<Rightarrow> step_closer s
      | Lister i \<Rightarrow> step_lister w s i
      | Worker i j \<Rightarrow> step_worker w s i j)"

text \<open>The process when \<open>_main\<close> reaches the loop over \<open>courseIds\<close>.\<close>

definition init :: proc where
  "init =
     \<lparr>mainpc = M_spawn 0, closerpc = K_unborn, listerpc = (\<lambda>i. L_unborn),
      workerpc = (\<lambda>i j. W_unborn), wg = 0, wg2 = (\<lambda>i. 0), ch_closed = False, n_close = 0,
      stdout = [],
      exit_status = None\<rparr>"

text \<open>
  A run under a schedule, the list of the scheduler's picks: a pick that cannot run is
  passed over. \<open>steps_taken\<close> counts the picks that ran.
\<close>

fun run :: "world \<Rightarrow> proc \<Rightarrow> tid list \<Rightarrow> proc" where
  "run w s [] = s"
| "run w s (t # ts) = (case step w s t of None \<Rightarrow> run w s ts | Some s' \<Rightarrow> run w s' ts)"

fun steps_taken :: "world \<Rightarrow> proc \<Rightarrow> tid list \<Rightarrow> nat" where
  "steps_taken w s [] = 0"
| "steps_taken w s (t # ts) =
     (case step w s t of None \<Rightarrow> steps_taken w s ts | Some s' \<Rightarrow> Suc (steps_taken w s' ts))"

section \<open>The invariant of the process\<close>

text \<open>The number of courses, and of assignments of course \<open>i\<close>.\<close>

definition ncourses :: "world \<Rightarrow> nat" where
  "ncourses w = length (w_courseIds w)"

definition nworks :: "world \<Rightarrow> nat \<Rightarrow> nat" where
  "nworks w i = length (assignments w i)"

text \<open>A goroutine counts in its \<open>WaitGroup\<close> from its start to its \<open>Done()\<close>.\<close>

fun lalive :: "lpc \<Rightarrow> nat" where
  "lalive L_unborn = 0"
| "lalive L_done = 0"
| "lalive pc = 1"

fun walive :: "wpc \<Rightarrow> nat" where
  "walive W_unborn = 0"
| "walive W_done = 0"
| "walive pc = 1"

text \<open>The text \<open>_main\<close> prints for an assignment.\<close>

definition line_of :: "CourseWork \<Rightarrow> string" where
  "line_of c = Sprintf_line (Title c) (Id_cw c) (AlternateLink c)"

text \<open>
  What the goroutine of an assignment has sent so far, as the text to print, and what
  \<open>_main\<close> has received and not printed yet.
\<close>

fun wsent :: "wpc \<Rightarrow> bool" where
  "wsent W_ret = True"
| "wsent W_done = True"
| "wsent pc = False"

definition wout :: "world \<Rightarrow> nat \<Rightarrow> nat \<Rightarrow> wpc \<Rightarrow> string multiset" where
  "wout w i j pc = (if visible w i j \<and> wsent pc then {#line_of (assignments w i ! j)#} else {#})"

fun holding :: "mpc \<Rightarrow> string multiset" where
  "holding (M_print c) = {#line_of c#}"
| "holding pc = {#}"

definition alive_listers :: "world \<Rightarrow> (nat \<Rightarrow> lpc) \<Rightarrow> nat" where
  "alive_listers w f = (\<Sum>i<ncourses w. lalive (f i))"

definition alive_workers :: "world \<Rightarrow> nat \<Rightarrow> (nat \<Rightarrow> wpc) \<Rightarrow> nat" where
  "alive_workers w i row = (\<Sum>j<nworks w i. walive (row j))"

definition sent_by :: "world \<Rightarrow> nat \<Rightarrow> (nat \<Rightarrow> wpc) \<Rightarrow> string multiset" where
  "sent_by w i row = (\<Sum>j<nworks w i. wout w i j (row j))"

definition sent_total :: "world \<Rightarrow> (nat \<Rightarrow> nat \<Rightarrow> wpc) \<Rightarrow> string multiset" where
  "sent_total w wp = (\<Sum>i<ncourses w. sent_by w i (wp i))"

text \<open>
  \<open>_main\<close> has started the goroutines of the courses before \<open>k\<close> and no other, and the
  closing goroutine only after all of them.
\<close>

fun main_ok :: "world \<Rightarrow> mpc \<Rightarrow> (nat \<Rightarrow> lpc) \<Rightarrow> kpc \<Rightarrow> bool" where
  "main_ok w (M_spawn k) f c =
     (k \<le> ncourses w \<and> (\<forall>i. (f i = L_unborn) = (k \<le> i)) \<and> c = K_unborn)"
| "main_ok w pc f c = ((\<forall>i. (f i = L_unborn) = (ncourses w \<le> i)) \<and> c \<noteq> K_unborn)"

definition inv_main :: "world \<Rightarrow> proc \<Rightarrow> bool" where
  "inv_main w s = main_ok w (mainpc s) (listerpc s) (closerpc s)"

text \<open>The counters count the goroutines that are started and have not called \<open>Done()\<close>.\<close>

definition inv_wg :: "world \<Rightarrow> proc \<Rightarrow> bool" where
  "inv_wg w s = (wg s = alive_listers w (listerpc s))"

definition inv_wg2 :: "world \<Rightarrow> proc \<Rightarrow> bool" where
  "inv_wg2 w s = (\<forall>i. wg2 s i = alive_workers w i (workerpc s i))"

text \<open>
  The goroutine of a course has started the goroutines of the assignments before \<open>j0\<close>
  and no other; once it is past \<open>wg2.Wait()\<close> all of them have finished. It is at
  \<open>log.Fatalf\<close> only with the error of its listing call.
\<close>

fun lister_ok :: "world \<Rightarrow> nat \<Rightarrow> lpc \<Rightarrow> (nat \<Rightarrow> wpc) \<Rightarrow> bool" where
  "lister_ok w i L_unborn row = (\<forall>j. row j = W_unborn)"
| "lister_ok w i L_list row = (\<forall>j. row j = W_unborn)"
| "lister_ok w i (L_fatal err) row =
     (CourseWork_List (w_srv w) (w_courseIds w ! i) = Inl err \<and> (\<forall>j. row j = W_unborn))"
| "lister_ok w i (L_spawn j0) row =
     (j0 \<le> nworks w i \<and> (\<forall>j. (row j = W_unborn) = (j0 \<le> j)))"
| "lister_ok w i L_wait row = (\<forall>j. (row j = W_unborn) = (nworks w i \<le> j))"
| "lister_ok w i L_ret row = (\<forall>j. row j = (if j < nworks w i then W_done else W_unborn))"
| "lister_ok w i L_done row = (\<forall>j. row j = (if j < nworks w i then W_done else W_unborn))"

definition inv_lister :: "world \<Rightarrow> proc \<Rightarrow> bool" where
  "inv_lister w s = (\<forall>i. lister_ok w i (listerpc s i) (workerpc s i))"

text \<open>
  Once the closing goroutine is past \<open>wg.Wait()\<close> every goroutine of a course has
  finished; the channel is closed exactly when the closing goroutine has finished, and
  \<open>close(ch)\<close> has then been executed once.
\<close>

definition inv_closer :: "world \<Rightarrow> proc \<Rightarrow> bool" where
  "inv_closer w s =
     ((closerpc s = K_close \<or> closerpc s = K_done \<longrightarrow> (\<forall>i<ncourses w. listerpc s i = L_done))
      \<and> (ch_closed s = (closerpc s = K_done))
      \<and> n_close s = (if ch_closed s then 1 else 0))"

text \<open>
  The process has not ended, or ended with status 0 or 1, never in a panic; status 0
  is the return of \<open>_main\<close>, which happens on a closed channel only.
\<close>

definition inv_exit :: "world \<Rightarrow> proc \<Rightarrow> bool" where
  "inv_exit w s =
     ((exit_status s = None \<or> exit_status s = Some 0 \<or> exit_status s = Some 1)
      \<and> ((mainpc s = M_done) = (exit_status s = Some 0))
      \<and> (mainpc s = M_done \<longrightarrow> ch_closed s))"

text \<open>
  Only goroutines of visible assignments send, and what has been printed, together
  with what \<open>_main\<close> holds, is what has been sent.
\<close>

definition inv_out :: "world \<Rightarrow> proc \<Rightarrow> bool" where
  "inv_out w s =
     ((\<forall>i j. workerpc s i j = W_send \<longrightarrow> visible w i j)
      \<and> mset (stdout s) + holding (mainpc s) = sent_total w (workerpc s))"

definition invariant :: "world \<Rightarrow> proc \<Rightarrow> bool" where
  "invariant w s = (inv_main w s \<and> inv_wg w s \<and> inv_wg2 w s \<and> inv_lister w s \<and> inv_closer w s
              \<and> inv_exit w s \<and> inv_out w s)"

text \<open>
  A bound on the number of steps the process can still take: every goroutine has a
  bounded number of statements left, and every step runs one of them.
\<close>

fun mpot :: "mpc \<Rightarrow> nat" where
  "mpot (M_spawn k) = 3"
| "mpot M_recv = 1"
| "mpot (M_print c) = 2"
| "mpot M_done = 0"

fun kpot :: "kpc \<Rightarrow> nat" where
  "kpot K_unborn = 3"
| "kpot K_wait = 2"
| "kpot K_close = 1"
| "kpot K_done = 0"

fun lpot :: "lpc \<Rightarrow> nat" where
  "lpot L_unborn = 5"
| "lpot L_list = 4"
| "lpot (L_fatal err) = 3"
| "lpot (L_spawn j) = 3"
| "lpot L_wait = 2"
| "lpot L_ret = 1"
| "lpot L_done = 0"

fun wpot :: "wpc \<Rightarrow> nat" where
  "wpot W_unborn = 5"
| "wpot W_check = 4"
| "wpot W_send = 3"
| "wpot W_ret = 1"
| "wpot W_done = 0"

definition lister_steps :: "world \<Rightarrow> (nat \<Rightarrow> lpc) \<Rightarrow> nat" where
  "lister_steps w f = (\<Sum>i<ncourses w. lpot (f i))"

definition row_steps :: "world \<Rightarrow> nat \<Rightarrow> (nat \<Rightarrow> wpc) \<Rightarrow> nat" where
  "row_steps w i row = (\<Sum>j<nworks w i. wpot (row j))"

definition worker_steps :: "world \<Rightarrow> (nat \<Rightarrow> nat \<Rightarrow> wpc) \<Rightarrow> nat" where
  "worker_steps w wp = (\<Sum>i<ncourses w. row_steps w i (wp i))"

definition steps_left :: "world \<Rightarrow> proc \<Rightarrow> nat" where
  "steps_left w s =
     mpot (mainpc s) + kpot (closerpc s) + lister_steps w (listerpc s)
     + worker_steps w (workerpc s) + (if exit_status s = None then 1 else 0)"

section \<open>Notions of the specification\<close>

text \<open>
  The three fields of a due date form a date that \<open>time.Parse\<close> accepts after
  \<open>Sprintf\<close> has printed them: a year of four digits, a month of the year and a day of
  that month.
\<close>

definition date_ok :: "int \<Rightarrow> int \<Rightarrow> int \<Rightarrow> bool" where
  "date_ok y m d =
     (1000 \<le> y \<and> y \<le> 9999 \<and> 1 \<le> m \<and> m \<le> 12 \<and> 1 \<le> d \<and> d \<le> daysIn m y)"

text \<open>A clock reading whose civil date is a date of the years 0 to 9999.\<close>

definition civil_ok :: "Now \<Rightarrow> bool" where
  "civil_ok t =
     (0 \<le> year t \<and> year t \<le> 9999 \<and> 1 \<le> month t \<and> month t \<le> 12
      \<and> 1 \<le> day t \<and> day t \<le> daysIn (month t) (year t))"

text \<open>
  Today, as the date check sees it: the number of the calendar day (counted from the
  zero time, in UTC) that contains the instant of the clock reading. The time of day
  plays no part.
\<close>

definition today :: "Now \<Rightarrow> int" where
  "today t = instant_of t div (24 * Hour)"

text \<open>
  The assignment passes the date check: its effective due date (the due date when
  there is one, else the civil date of the first clock reading) is a date, and its day
  is not before today as the date check sees it. This is when the filter reaches the
  submission lookup.
\<close>

definition due_today_or_later :: "Now \<times> Now \<Rightarrow> CourseWork \<Rightarrow> bool" where
  "due_today_or_later clk c =
     (case DueDate c of
        Some dd \<Rightarrow>
          date_ok (Year dd) (Month dd) (Day dd)
          \<and> today (snd clk) \<le> daysSinceZero (Year dd) (Month dd) (Day dd)
      | None \<Rightarrow>
          civil_ok (fst clk)
          \<and> today (snd clk) \<le> daysSinceZero (year (fst clk)) (month (fst clk)) (day (fst clk)))"

text \<open>
  Today's calendar date, as the clock of the process shows it: the number of the
  civil day of a clock reading. This is the date \<open>Format\<close> prints.
\<close>

definition civil_day :: "Now \<Rightarrow> int" where
  "civil_day t = daysSinceZero (year t) (month t) (day t)"

text \<open>
  The lines of the visible assignments of a run, one for each assignment of each course
  for which the visibility check says visible.
\<close>

definition visible_lines :: "world \<Rightarrow> string multiset" where
  "visible_lines w =
     (\<Sum>i<ncourses w. \<Sum>j<nworks w i.
        if visible w i j then {#line_of (assignments w i ! j)#} else {#})"

text \<open>The listing call of some course fails.\<close>

definition listing_fails :: "world \<Rightarrow> bool" where
  "listing_fails w =
     (\<exists>courseId\<in>set (w_courseIds w).
        case CourseWork_List (w_srv w) courseId of Inl err \<Rightarrow> True | Inr r \<Rightarrow> False)"

section \<open>An example world\<close>

text \<open>
  One instant, 2024-10-31 01:00 UTC, read on two clocks: in Japan (UTC+9) it is 10:00
  on October 31, in New York (UTC-4) it is 21:00 on October 30.
\<close>

definition japan_morning :: Now where
  "japan_morning =
     \<lparr>year = 2024, month = 10, day = 31, nsec_of_day = 36000000000000, zone_offset = 32400\<rparr>"

definition new_york_evening :: Now where
  "new_york_evening =
     \<lparr>year = 2024, month = 10, day = 30, nsec_of_day = 75600000000000, zone_offset = - 14400\<rparr>"

definition assignment :: "string \<Rightarrow> Date option \<Rightarrow> CourseWork" where
  "assignment ident due =
     \<lparr>CourseId = ''C1'', Id_cw = ident, Title = ''Report'', AlternateLink = ''https://c/'' @ ident,
      DueDate = due\<rparr>"

definition A1 :: CourseWork where
  "A1 = assignment ''A1'' (Some \<lparr>Year = 2024, Month = 10, Day = 30\<rparr>)"

definition A2 :: CourseWork where
  "A2 = assignment ''A2'' (Some \<lparr>Year = 2024, Month = 11, Day = 1\<rparr>)"

definition A3 :: CourseWork where
  "A3 = assignment ''A3'' None"

definition A4 :: CourseWork where
  "A4 = assignment ''A4'' None"

definition A5 :: CourseWork where
  "A5 = assignment ''A5'' (Some \<lparr>Year = 2024, Month = 11, Day = 1\<rparr>)"

definition A6 :: CourseWork where
  "A6 = assignment ''A6'' (Some \<lparr>Year = 2024, Month = 13, Day = 1\<rparr>)"

definition A7 :: CourseWork where
  "A7 = assignment ''A7'' (Some \<lparr>Year = 999, Month = 12, Day = 31\<rparr>)"

text \<open>
  The service of the example: course \<open>C1\<close> has the four assignments of the
  specification's scenario, \<open>C2\<close> has none, \<open>C3\<close> and \<open>C4\<close> each have one whose check
  fails, every other listing fails. \<open>A3\<close> is turned in; the lookup for \<open>A5\<close> fails.
\<close>

definition example_srv :: Service where
  "example_srv =
     \<lparr>CourseWork_List =
        (\<lambda>courseId.
           if courseId = ''C1'' then Inr [A1, A2, A3, A4]
           else if courseId = ''C2'' then Inr []
           else if courseId = ''C3'' then Inr [A2, A5, A4]
           else if courseId = ''C4'' then Inr [A2, A6, A4]
           else Inl (RemoteError ''transport'')),
      StudentSubmissions_List =
        (\<lambda>courseId ident.
           if ident = ''A3'' then Inr [\<lparr>State = ''CREATED''\<rparr>, \<lparr>State = ''TURNED_IN''\<rparr>]
           else if ident = ''A5'' then Inl (RemoteError ''lookup'')
           else Inr [])\<rparr>"

text \<open>
  Another instant, 2024-10-31 23:00 UTC: in Japan it is 08:00 on November 1. The
  assignment \<open>A8\<close> was due on October 31.
\<close>

definition japan_early :: Now where
  "japan_early =
     \<lparr>year = 2024, month = 11, day = 1, nsec_of_day = 28800000000000, zone_offset = 32400\<rparr>"

definition A8 :: CourseWork where
  "A8 = assignment ''A8'' (Some \<lparr>Year = 2024, Month = 10, Day = 31\<rparr>)"

text \<open>
  The process on the example service, in Japan on the morning of October 31, and two
  schedules. In \<open>normal_run\<close>, on the courses \<open>C3\<close> and \<open>C2\<close>, every goroutine runs to
  its end. In \<open>failing_run\<close>, on the courses \<open>C1\<close> and \<open>C9\<close>, the assignment \<open>A2\<close> of \<open>C1\<close>
  is printed (\<open>before_listing\<close>), then the goroutine of \<open>C9\<close> makes its listing call,
  which fails (\<open>listing_failed\<close>), and then it runs \<open>log.Fatalf\<close>.
\<close>

definition example_world :: "string list \<Rightarrow> world" where
  "example_world ids =
     \<lparr>w_srv = example_srv, w_courseIds = ids, w_clocks = (\<lambda>i j. (japan_morning, japan_morning))\<rparr>"

definition normal_run :: "tid list" where
  "normal_run =
     [Main, Main, Main,
      Lister 1, Lister 1,
      Lister 0, Lister 0, Lister 0, Lister 0, Lister 0,
      Worker 0 2, Worker 0 2, Main, Worker 0 2,
      Worker 0 1, Worker 0 1,
      Worker 0 0, Worker 0 0, Main, Worker 0 0,
      Lister 0, Lister 0,
      Closer, Closer,
      Main]"

definition before_listing :: "tid list" where
  "before_listing =
     [Main, Main, Main,
      Lister 0, Lister 0, Lister 0,
      Worker 0 1, Worker 0 1, Main]"

definition listing_failed :: "tid list" where
  "listing_failed = before_listing @ [Lister 1]"

definition failing_run :: "tid list" where
  "failing_run = listing_failed @ [Lister 1]"

section \<open>Lemmas about the library functions\<close>

subsection \<open>Digits\<close>

lemma digit_val_digit_char: "k < 10 \<Longrightarrow> digit_val (digit_char k) = Some k"
  by (simp add: digit_val_def digit_char_def)

lemma digit_val_dash [simp]: "digit_val (CHR ''-'') = None"
  by (simp add: digit_val_def)

lemma digit_val_plus: "digit_val (CHR ''+'') = None"
  by (simp add: digit_val_def)

lemma digit_char_numerals:
  "digit_char 0 = CHR ''0''" "digit_char 1 = CHR ''1''" "digit_char 2 = CHR ''2''"
  "digit_char 3 = CHR ''3''" "digit_char 4 = CHR ''4''" "digit_char 5 = CHR ''5''"
  "digit_char 6 = CHR ''6''" "digit_char 7 = CHR ''7''" "digit_char 8 = CHR ''8''"
  "digit_char 9 = CHR ''9''"
proof -
  have byte: "\<And>k c. k < 10 \<Longrightarrow> of_char c = 48 + k \<Longrightarrow> digit_char k = c"
  proof -
    fix k :: nat and c :: char
    assume "k < 10" "of_char c = 48 + k"
    then have "char_of (48 + k) = char_of (of_char c :: nat)" by simp
    then show "digit_char k = c" by (simp add: digit_char_def)
  qed
  show "digit_char 0 = CHR ''0''" "digit_char 1 = CHR ''1''" "digit_char 2 = CHR ''2''"
    "digit_char 3 = CHR ''3''" "digit_char 4 = CHR ''4''" "digit_char 5 = CHR ''5''"
    "digit_char 6 = CHR ''6''" "digit_char 7 = CHR ''7''" "digit_char 8 = CHR ''8''"
    "digit_char 9 = CHR ''9''"
    by (rule byte; simp)+
qed

lemma digit_char_Suc_0: "digit_char (Suc 0) = CHR ''1''"
  using digit_char_numerals(2) by simp

lemma digit_val_digit_char_any: "k < 10 \<Longrightarrow> \<exists>y. digit_val (digit_char k) = Some y"
  by (simp add: digit_val_digit_char)

lemma digit_char_not_dash: "k < 10 \<Longrightarrow> digit_char k \<noteq> CHR ''-''"
  using digit_val_digit_char [of k] digit_val_dash by auto

lemma digit_char_not_plus: "k < 10 \<Longrightarrow> digit_char k \<noteq> CHR ''+''"
  using digit_val_digit_char [of k] digit_val_plus by auto

lemma digits_lt10: "n < 10 \<Longrightarrow> digits n = [digit_char n]"
  by (simp add: digits.simps)

lemma digits_ge10: "10 \<le> n \<Longrightarrow> digits n = digits (n div 10) @ [digit_char (n mod 10)]"
  by (subst digits.simps) simp

lemma digits_2: "10 \<le> n \<Longrightarrow> n < 100 \<Longrightarrow> digits n = [digit_char (n div 10), digit_char (n mod 10)]"
  by (simp add: digits_ge10 digits_lt10)

lemma digits_3: "100 \<le> n \<Longrightarrow> n < 1000 \<Longrightarrow>
  digits n = [digit_char (n div 100), digit_char (n div 10 mod 10), digit_char (n mod 10)]"
proof -
  assume a: "100 \<le> n" "n < 1000"
  then have "10 \<le> n div 10" "n div 10 < 100" by auto
  then have "digits (n div 10) = [digit_char (n div 10 div 10), digit_char (n div 10 mod 10)]"
    by (rule digits_2)
  moreover have "n div 10 div 10 = n div 100" by (simp add: div_mult2_eq[symmetric])
  ultimately show ?thesis using a by (simp add: digits_ge10)
qed

lemma digits_4: "1000 \<le> n \<Longrightarrow> n < 10000 \<Longrightarrow>
  digits n = [digit_char (n div 1000), digit_char (n div 100 mod 10), digit_char (n div 10 mod 10), digit_char (n mod 10)]"
proof -
  assume a: "1000 \<le> n" "n < 10000"
  then have "100 \<le> n div 10" "n div 10 < 1000" by auto
  then have "digits (n div 10) =
     [digit_char (n div 10 div 100), digit_char (n div 10 div 10 mod 10), digit_char (n div 10 mod 10)]"
    by (rule digits_3)
  moreover have "n div 10 div 100 = n div 1000" "n div 10 div 10 = n div 100"
    by (simp_all add: div_mult2_eq[symmetric])
  ultimately show ?thesis using a by (simp add: digits_ge10)
qed

lemma digits_all: "c \<in> set (digits n) \<Longrightarrow> digit_val c \<noteq> None"
proof (induction n arbitrary: c rule: digits.induct)
  case (1 n)
  show ?case
  proof (cases "n < 10")
    case True
    with "1.prems" show ?thesis by (simp add: digits_lt10 digit_val_digit_char_any)
  next
    case False
    with "1.prems" "1.IH" show ?thesis
      by (auto simp: digits_ge10 digit_val_digit_char_any)
  qed
qed

lemma length_digits_ge: "10 ^ k \<le> n \<Longrightarrow> k < length (digits n)"
proof (induction k arbitrary: n)
  case 0
  then show ?case by (subst digits.simps) simp
next
  case (Suc k)
  have "(10::nat) \<le> 10 ^ Suc k" by simp
  with Suc.prems have "10 \<le> n" by linarith
  moreover from Suc.prems have "10 ^ k \<le> n div 10" by simp
  ultimately show ?case using Suc.IH[of "n div 10"] by (simp add: digits_ge10)
qed

lemma digit_char_0: "digit_char 0 = CHR ''0''"
  by (rule digit_char_numerals)

lemma two_digits: "n < 100 \<Longrightarrow> zero_pad 2 (digits n) = [digit_char (n div 10), digit_char (n mod 10)]"
proof (cases "n < 10")
  case True
  then show ?thesis by (simp add: digits_lt10 zero_pad_def digit_char_0)
next
  case False
  assume "n < 100"
  with False show ?thesis by (simp add: digits_2 zero_pad_def)
qed

lemma replicate_2: "replicate 2 x = [x, x]"
  by (simp add: numeral_2_eq_2)

lemma replicate_3: "replicate 3 x = [x, x, x]"
  by (simp add: numeral_3_eq_3)

lemma four_digits: "n < 10000 \<Longrightarrow> zero_pad 4 (digits n) =
  [digit_char (n div 1000), digit_char (n div 100 mod 10), digit_char (n div 10 mod 10), digit_char (n mod 10)]"
proof -
  assume a: "n < 10000"
  consider "n < 10" | "10 \<le> n" "n < 100" | "100 \<le> n" "n < 1000" | "1000 \<le> n"
    by linarith
  then show ?thesis
  proof cases
    case 1
    then show ?thesis by (simp add: digits_lt10 zero_pad_def digit_char_0 replicate_3)
  next
    case 2
    then show ?thesis by (simp add: digits_2 zero_pad_def digit_char_0 replicate_2)
  next
    case 3
    then show ?thesis by (simp add: digits_3 zero_pad_def digit_char_0)
  next
    case 4
    with a show ?thesis by (simp add: digits_4 zero_pad_def)
  qed
qed

lemma leadingInt_4:
  "a < 10 \<Longrightarrow> b < 10 \<Longrightarrow> c < 10 \<Longrightarrow> e < 10 \<Longrightarrow>
   leadingInt 0 [digit_char a, digit_char b, digit_char c, digit_char e] = (a * 1000 + b * 100 + c * 10 + e, [])"
  by (simp add: digit_val_digit_char)

lemma atoi_4:
  "a < 10 \<Longrightarrow> b < 10 \<Longrightarrow> c < 10 \<Longrightarrow> e < 10 \<Longrightarrow>
   atoi [digit_char a, digit_char b, digit_char c, digit_char e] = Some (int (a * 1000 + b * 100 + c * 10 + e))"
  by (simp add: atoi_def leadingInt_4 digit_char_not_dash digit_char_not_plus
      del: leadingInt.simps)

lemma getnum_2:
  "f < 10 \<Longrightarrow> g < 10 \<Longrightarrow> getnum (digit_char f # digit_char g # r) = Some (int f * 10 + int g, r)"
  by (simp add: getnum_def digit_val_digit_char)

lemma Parse_date_digits:
  assumes "a < 10" "b < 10" "c < 10" "e < 10" "f < 10" "g < 10" "h < 10" "i < 10"
  shows "Parse_date [digit_char a, digit_char b, digit_char c, digit_char e, CHR ''-'',
                     digit_char f, digit_char g, CHR ''-'', digit_char h, digit_char i] =
    (let v = [digit_char a, digit_char b, digit_char c, digit_char e, CHR ''-'',
                     digit_char f, digit_char g, CHR ''-'', digit_char h, digit_char i];
         y = int (a * 1000 + b * 100 + c * 10 + e); m = int f * 10 + int g; d = int h * 10 + int i
     in if m \<le> 0 \<or> 12 < m then Inl (ParseError v)
        else if d < 1 \<or> daysIn m y < d then Inl (ParseError v)
        else Inr (daysSinceZero y m d * 86400 * 1000000000))"
  using assms
  by (simp add: Parse_date_def isDigit_def digit_val_digit_char atoi_4 skip_dash_def getnum_2 Let_def)


lemma nat_of_digits_4:
  "n div 1000 * 1000 + n div 100 mod 10 * 100 + n div 10 mod 10 * 10 + n mod 10 = (n::nat)"
proof -
  have a: "n div 100 = n div 10 div 10" "n div 1000 = n div 10 div 10 div 10"
    by (simp_all add: div_mult2_eq[symmetric])
  have "n = 10 * (n div 10) + n mod 10" by simp
  moreover have "n div 10 = 10 * (n div 10 div 10) + n div 10 mod 10" by simp
  moreover have "n div 10 div 10 = 10 * (n div 10 div 10 div 10) + n div 10 div 10 mod 10" by simp
  ultimately show ?thesis unfolding a by linarith
qed

lemma Sprintf_year_4: "1000 \<le> y \<Longrightarrow> y \<le> 9999 \<Longrightarrow>
  fmt_d y = [digit_char (nat y div 1000), digit_char (nat y div 100 mod 10),
             digit_char (nat y div 10 mod 10), digit_char (nat y mod 10)]"
  by (simp add: fmt_d_def digits_4)

lemma fmt_02d_2: "0 \<le> i \<Longrightarrow> i < 100 \<Longrightarrow>
  fmt_02d i = [digit_char (nat i div 10), digit_char (nat i mod 10)]"
  by (simp add: fmt_02d_def two_digits)

lemma Parse_Sprintf_in_width:
  assumes y: "1000 \<le> y" "y \<le> 9999" and m: "0 \<le> m" "m < 100" and d: "0 \<le> d" "d < 100"
  shows "Parse_date (Sprintf_date y m d) =
    (if 1 \<le> m \<and> m \<le> 12 \<and> 1 \<le> d \<and> d \<le> daysIn m y
     then Inr (daysSinceZero y m d * 86400 * 1000000000)
     else Inl (ParseError (Sprintf_date y m d)))"
proof -
  let ?n = "nat y" and ?p = "nat m" and ?q = "nat d"
  have v: "Sprintf_date y m d =
     [digit_char (?n div 1000), digit_char (?n div 100 mod 10), digit_char (?n div 10 mod 10),
      digit_char (?n mod 10), CHR ''-'', digit_char (?p div 10), digit_char (?p mod 10),
      CHR ''-'', digit_char (?q div 10), digit_char (?q mod 10)]"
    using assms by (simp add: Sprintf_date_def Sprintf_year_4 fmt_02d_2)
  have b: "?n div 1000 < 10" "?n div 100 mod 10 < 10" "?n div 10 mod 10 < 10" "?n mod 10 < 10"
     "?p div 10 < 10" "?p mod 10 < 10" "?q div 10 < 10" "?q mod 10 < 10"
    using assms by auto
  have yy: "int (?n div 1000 * 1000 + ?n div 100 mod 10 * 100 + ?n div 10 mod 10 * 10 + ?n mod 10) = y"
    using y by (simp only: nat_of_digits_4)
  have mm: "int (?p div 10) * 10 + int (?p mod 10) = m"
    using m by (simp add: zdiv_int zmod_int)
  have dd: "int (?q div 10) * 10 + int (?q mod 10) = d"
    using d by (simp add: zdiv_int zmod_int)
  show ?thesis
    unfolding v Parse_date_digits [OF b] Let_def yy mm dd
    by auto
qed


lemma leadingInt_stops:
  "\<forall>c\<in>set ds. digit_val c \<noteq> None \<Longrightarrow> digit_val c0 = None \<Longrightarrow>
   snd (leadingInt x (ds @ c0 # r)) = c0 # r"
  by (induction ds arbitrary: x) auto

lemma leadingInt_all:
  "\<forall>c\<in>set ds. digit_val c \<noteq> None \<Longrightarrow> snd (leadingInt x ds) = []"
  by (induction ds arbitrary: x) auto

lemma atoi_None:
  assumes "ds \<noteq> []" "\<forall>c\<in>set ds. digit_val c \<noteq> None" "digit_val c0 = None"
  shows "atoi (ds @ c0 # r) = None"
proof -
  from assms(1) obtain a as where ds: "ds = a # as" by (cases ds) auto
  with assms(2) have "digit_val a \<noteq> None" by simp
  then have a: "a \<noteq> CHR ''-''" "a \<noteq> CHR ''+''"
    using digit_val_plus by auto
  have "snd (leadingInt 0 (ds @ c0 # r)) = c0 # r"
    using assms(2,3) by (rule leadingInt_stops)
  then show ?thesis
    using a by (auto simp: atoi_def ds split: prod.splits)
qed

lemma atoi_Some:
  assumes "ds \<noteq> []" "\<forall>c\<in>set ds. digit_val c \<noteq> None"
  shows "\<exists>y. atoi ds = Some y"
proof -
  from assms(1) obtain a as where ds: "ds = a # as" by (cases ds) auto
  with assms(2) have "digit_val a \<noteq> None" by simp
  then have a: "a \<noteq> CHR ''-''" "a \<noteq> CHR ''+''"
    using digit_val_plus by auto
  have "snd (leadingInt 0 ds) = []"
    using assms(2) by (rule leadingInt_all)
  then show ?thesis
    using a by (auto simp: atoi_def ds split: prod.splits)
qed

lemma digits_nonempty: "digits n \<noteq> []"
  by (subst digits.simps) simp

lemma length_digits_lt1000: "n < 1000 \<Longrightarrow> length (digits n) < 4"
proof -
  assume a: "n < 1000"
  consider "n < 10" | "10 \<le> n" "n < 100" | "100 \<le> n" by linarith
  then show ?thesis
  proof cases
    case 1 then show ?thesis by (simp add: digits_lt10)
  next
    case 2 then show ?thesis by (simp add: digits_2)
  next
    case 3 with a show ?thesis by (simp add: digits_3)
  qed
qed

lemma digits_all_ball: "\<forall>c\<in>set (digits n). digit_val c \<noteq> None"
  using digits_all by blast

lemma Parse_year_negative: "y < 0 \<Longrightarrow> Parse_date (fmt_d y @ rest) = Inl (ParseError (fmt_d y @ rest))"
  by (simp add: Parse_date_def fmt_d_def isDigit_def)

lemma Parse_year_short:
  assumes "0 \<le> y" "y < 1000"
  shows "Parse_date (fmt_d y @ CHR ''-'' # rest) = Inl (ParseError (fmt_d y @ CHR ''-'' # rest))"
proof -
  let ?ds = "digits (nat y)"
  have f: "fmt_d y = ?ds" using assms by (simp add: fmt_d_def)
  have l: "length ?ds < 4" using assms by (intro length_digits_lt1000) simp
  have "take 4 (?ds @ CHR ''-'' # rest) = ?ds @ CHR ''-'' # take (3 - length ?ds) rest"
    using l by (simp add: take_Cons')
  moreover have "atoi (?ds @ CHR ''-'' # take (3 - length ?ds) rest) = None"
    by (rule atoi_None) (simp_all add: digits_nonempty digits_all_ball)
  ultimately show ?thesis
    by (simp add: Parse_date_def f)
qed

lemma Parse_year_long:
  assumes "10000 \<le> y"
  shows "Parse_date (fmt_d y @ CHR ''-'' # rest) = Inl (ParseError (fmt_d y @ CHR ''-'' # rest))"
proof -
  let ?ds = "digits (nat y)"
  have f: "fmt_d y = ?ds" using assms by (simp add: fmt_d_def)
  have "10 ^ 4 \<le> nat y" using assms by simp
  then have l: "4 < length ?ds" by (rule length_digits_ge)
  then obtain c cs where dr: "drop 4 ?ds = c # cs"
    by (cases "drop 4 ?ds") auto
  then have "c \<in> set ?ds" by (metis in_set_dropD list.set_intros(1))
  then have "digit_val c \<noteq> None" by (rule digits_all)
  then have c: "c \<noteq> CHR ''-''" by auto
  have "skip_dash (drop 4 (?ds @ CHR ''-'' # rest)) = None"
    using l dr c by (simp add: skip_dash_def)
  then show ?thesis
    by (simp add: Parse_date_def f del: drop_append split: option.split)
qed


lemma list_3_or_more: "2 < length xs \<Longrightarrow> \<exists>a b c r. xs = a # b # c # r"
proof -
  assume "2 < length xs"
  then have "Suc (Suc (Suc 0)) \<le> length xs" by simp
  then show ?thesis by (auto simp: Suc_le_length_iff)
qed

lemma digits_3_or_more:
  assumes "100 \<le> n"
  obtains a b c r x1 x2 where "digits n = a # b # c # r"
    "digit_val a = Some x1" "digit_val b = Some x2" "c \<noteq> CHR ''-''"
proof -
  have "10 ^ 2 \<le> n" using assms by simp
  then have l: "2 < length (digits n)" by (rule length_digits_ge)
  then obtain a b c r where d: "digits n = a # b # c # r"
    using list_3_or_more by blast
  have n: "digit_val a \<noteq> None" "digit_val b \<noteq> None" "digit_val c \<noteq> None"
    using digits_all [of _ n] by (simp_all add: d)
  from n(3) have c: "c \<noteq> CHR ''-''" by auto
  from n(1,2) obtain x1 x2 where "digit_val a = Some x1" "digit_val b = Some x2"
    by auto
  with d c show ?thesis using that by blast
qed

lemma Parse_year4:
  assumes "a < 10" "b < 10" "c < 10" "e < 10"
  shows "Parse_date (digit_char a # digit_char b # digit_char c # digit_char e # CHR ''-'' # rest) =
    (let v = digit_char a # digit_char b # digit_char c # digit_char e # CHR ''-'' # rest;
         y = int (a * 1000 + b * 100 + c * 10 + e)
     in case getnum rest of
          None \<Rightarrow> Inl (ParseError v)
        | Some (m, v2) \<Rightarrow>
            if m \<le> 0 \<or> 12 < m then Inl (ParseError v)
            else (case skip_dash v2 of
               None \<Rightarrow> Inl (ParseError v)
             | Some v3 \<Rightarrow>
                (case getnum v3 of
                   None \<Rightarrow> Inl (ParseError v)
                 | Some (d, v4) \<Rightarrow>
                    if v4 \<noteq> [] then Inl (ParseError v)
                    else if d < 1 \<or> daysIn m y < d then Inl (ParseError v)
                    else Inr (daysSinceZero y m d * 86400 * 1000000000))))"
  using assms
  by (simp add: Parse_date_def isDigit_def digit_val_digit_char atoi_4 skip_dash_def Let_def)

lemma Sprintf_date_year4:
  assumes "1000 \<le> y" "y \<le> 9999"
  shows "Sprintf_date y m d =
     digit_char (nat y div 1000) # digit_char (nat y div 100 mod 10) #
     digit_char (nat y div 10 mod 10) # digit_char (nat y mod 10) # CHR ''-'' #
     (fmt_02d m @ CHR ''-'' # fmt_02d d)"
  using assms by (simp add: Sprintf_date_def Sprintf_year_4)

lemma year4_bounds:
  assumes "1000 \<le> y" "y \<le> 9999"
  shows "nat y div 1000 < 10" "nat y div 100 mod 10 < 10" "nat y div 10 mod 10 < 10" "nat y mod 10 < 10"
  using assms by auto

lemma fmt_02d_negative: "i < 0 \<Longrightarrow> getnum (fmt_02d i @ rest) = None"
  by (simp add: fmt_02d_def getnum_def split: list.split)

lemma fmt_02d_long:
  assumes "100 \<le> i"
  obtains a b c r x1 x2 where "fmt_02d i = a # b # c # r"
    "digit_val a = Some x1" "digit_val b = Some x2" "c \<noteq> CHR ''-''"
proof -
  have n: "100 \<le> nat i" using assms by simp
  obtain a b c r x1 x2 where d: "digits (nat i) = a # b # c # r"
    "digit_val a = Some x1" "digit_val b = Some x2" "c \<noteq> CHR ''-''"
    using digits_3_or_more [OF n] by blast
  have "fmt_02d i = a # b # c # r"
    using assms d(1) by (simp add: fmt_02d_def zero_pad_def)
  with d show ?thesis using that by blast
qed

lemma Parse_month_bad:
  assumes y: "1000 \<le> y" "y \<le> 9999" and m: "m < 0 \<or> 100 \<le> m"
  shows "Parse_date (Sprintf_date y m d) = Inl (ParseError (Sprintf_date y m d))"
proof (cases "m < 0")
  case True
  then show ?thesis
    unfolding Sprintf_date_year4 [OF y] Parse_year4 [OF year4_bounds [OF y]]
    by (simp add: fmt_02d_negative)
next
  case False
  with m have "100 \<le> m" by simp
  then obtain a b c r x1 x2 where f: "fmt_02d m = a # b # c # r"
    "digit_val a = Some x1" "digit_val b = Some x2" "c \<noteq> CHR ''-''"
    by (rule fmt_02d_long)
  show ?thesis
    unfolding Sprintf_date_year4 [OF y] Parse_year4 [OF year4_bounds [OF y]]
    using f by (simp add: getnum_def skip_dash_def Let_def)
qed

lemma Parse_day_bad:
  assumes y: "1000 \<le> y" "y \<le> 9999" and m: "0 \<le> m" "m < 100" and d: "d < 0 \<or> 100 \<le> d"
  shows "Parse_date (Sprintf_date y m d) = Inl (ParseError (Sprintf_date y m d))"
proof (cases "d < 0")
  case True
  then have "getnum (fmt_02d d) = None"
    using fmt_02d_negative [of d "[]"] by simp
  then show ?thesis
    unfolding Sprintf_date_year4 [OF y] Parse_year4 [OF year4_bounds [OF y]] fmt_02d_2 [OF m]
    using m by (simp add: getnum_2 skip_dash_def Let_def)
next
  case False
  with d have "100 \<le> d" by simp
  then obtain a b c r x1 x2 where f: "fmt_02d d = a # b # c # r"
    "digit_val a = Some x1" "digit_val b = Some x2" "c \<noteq> CHR ''-''"
    by (rule fmt_02d_long)
  show ?thesis
    unfolding Sprintf_date_year4 [OF y] Parse_year4 [OF year4_bounds [OF y]] fmt_02d_2 [OF m]
    using f m by (simp add: getnum_2 skip_dash_def Let_def) (simp add: getnum_def)
qed


lemma Parse_Sprintf_date:
  "Parse_date (Sprintf_date y m d) =
     (if date_ok y m d then Inr (daysSinceZero y m d * 86400 * 1000000000)
      else Inl (ParseError (Sprintf_date y m d)))"
proof -
  consider "y < 0" | "0 \<le> y" "y < 1000" | "10000 \<le> y"
    | "1000 \<le> y" "y \<le> 9999" "m < 0 \<or> 100 \<le> m"
    | "1000 \<le> y" "y \<le> 9999" "0 \<le> m" "m < 100" "d < 0 \<or> 100 \<le> d"
    | "1000 \<le> y" "y \<le> 9999" "0 \<le> m" "m < 100" "0 \<le> d" "d < 100"
    by linarith
  then show ?thesis
  proof cases
    case 1
    then show ?thesis
      using Parse_year_negative [of y "''-'' @ fmt_02d m @ ''-'' @ fmt_02d d"]
      by (simp add: Sprintf_date_def date_ok_def)
  next
    case 2
    then show ?thesis
      using Parse_year_short [of y "fmt_02d m @ ''-'' @ fmt_02d d"]
      by (simp add: Sprintf_date_def date_ok_def)
  next
    case 3
    then show ?thesis
      using Parse_year_long [of y "fmt_02d m @ ''-'' @ fmt_02d d"]
      by (simp add: Sprintf_date_def date_ok_def)
  next
    case 4
    then show ?thesis
      using Parse_month_bad [of y m d] by (auto simp: date_ok_def)
  next
    case 5
    have "daysIn m y \<le> 31" by (simp add: daysIn_def)
    with 5 show ?thesis
      using Parse_day_bad [of y m d] by (auto simp: date_ok_def)
  next
    case 6
    then show ?thesis
      using Parse_Sprintf_in_width [of y m d] by (auto simp: date_ok_def)
  qed
qed

subsection \<open>The calendar\<close>

lemma div_step:
  fixes y n :: int
  assumes "0 < n"
  shows "y div n - (y - 1) div n = (if y mod n = 0 then 1 else 0)"
proof (cases "y mod n = 0")
  case True
  then have y: "y = y div n * n" by auto
  have e: "y - 1 = (n - 1) + (y div n - 1) * n"
    using y by (simp add: algebra_simps)
  have "(y - 1) div n = ((n - 1) + (y div n - 1) * n) div n"
    by (rule arg_cong [where f = "\<lambda>x. x div n", OF e])
  also have "\<dots> = (y div n - 1) + (n - 1) div n"
    using assms by (subst div_mult_self1) simp_all
  also have "(n - 1) div n = 0"
    using assms by (intro div_pos_pos_trivial) simp_all
  finally show ?thesis using True by simp
next
  case False
  have "0 \<le> y mod n" "y mod n < n" using assms by simp_all
  with False have r: "0 \<le> y mod n - 1" "y mod n - 1 < n" by simp_all
  have e: "y - 1 = (y mod n - 1) + y div n * n"
    using div_mult_mod_eq [of y n] by simp
  have "(y - 1) div n = ((y mod n - 1) + y div n * n) div n"
    by (rule arg_cong [where f = "\<lambda>x. x div n", OF e])
  also have "\<dots> = y div n + (y mod n - 1) div n"
    using assms by (subst div_mult_self1) simp_all
  also have "(y mod n - 1) div n = 0"
    using r by (intro div_pos_pos_trivial)
  finally show ?thesis using False by simp
qed


lemma daysSinceZero_split: "daysSinceZero y m d = year_start y + day_of_year y m d"
  by (simp add: daysSinceZero_def year_start_def day_of_year_def)

lemma year_length:
  "year_start (y + 1) = year_start y + 365 + (if isLeap y then 1 else 0)"
proof -
  have a: "y div 4 - (y - 1) div 4 = (if y mod 4 = 0 then 1 else 0)"
    by (rule div_step) simp
  have b: "y div 100 - (y - 1) div 100 = (if y mod 100 = 0 then 1 else 0)"
    by (rule div_step) simp
  have c: "y div 400 - (y - 1) div 400 = (if y mod 400 = 0 then 1 else 0)"
    by (rule div_step) simp
  have d: "y mod 100 = 0 \<Longrightarrow> y mod 4 = 0"
    using mod_mod_cancel [of 4 100 y] by simp
  have e: "y mod 400 = 0 \<Longrightarrow> y mod 100 = 0"
    using mod_mod_cancel [of 100 400 y] by simp
  have "year_start (y + 1) - year_start y
          = 365 + (y div 4 - (y - 1) div 4) - (y div 100 - (y - 1) div 100)
              + (y div 400 - (y - 1) div 400)"
    by (simp add: year_start_def)
  also have "\<dots> = 365 + (if y mod 4 = 0 then 1 else 0) - (if y mod 100 = 0 then 1 else 0)
              + (if y mod 400 = 0 then 1 else 0)"
    by (simp only: a b c)
  also have "\<dots> = 365 + (if isLeap y then 1 else 0)"
    using d e by (cases "y mod 4 = 0"; cases "y mod 100 = 0"; cases "y mod 400 = 0")
      (simp_all add: isLeap_def)
  finally show ?thesis by simp
qed

lemma year_start_mono:
  assumes "y < y'"
  shows "year_start y + 365 + (if isLeap y then 1 else 0) \<le> year_start y'"
proof -
  have "y + 1 \<le> y'" using assms by simp
  then show ?thesis
  proof (induction y' rule: int_ge_induct)
    case base
    show ?case by (simp add: year_length)
  next
    case (step i)
    have "year_start (i + 1) = year_start i + 365 + (if isLeap i then 1 else 0)"
      by (rule year_length)
    with step.IH show ?case by simp
  qed
qed


lemma month_cases:
  fixes m :: int
  assumes "1 \<le> m" "m \<le> 12"
  shows "m = 1 \<or> m = 2 \<or> m = 3 \<or> m = 4 \<or> m = 5 \<or> m = 6 \<or> m = 7 \<or> m = 8 \<or> m = 9
         \<or> m = 10 \<or> m = 11 \<or> m = 12"
  using assms by arith

lemma day_of_year_bounds:
  assumes "1 \<le> m" "m \<le> 12" "1 \<le> d" "d \<le> daysIn m y"
  shows "0 \<le> day_of_year y m d"
    and "day_of_year y m d < 365 + (if isLeap y then 1 else 0)"
  using month_cases [OF assms(1,2)] assms(3,4)
  by (elim disjE; simp add: day_of_year_def daysBefore_def daysIn_def split: if_splits)+

lemma month_step:
  assumes "1 \<le> m" "m < 12"
  shows "daysBefore m + (if isLeap y \<and> 3 \<le> m then 1 else 0) + daysIn m y
         = daysBefore (m + 1) + (if isLeap y \<and> 3 \<le> m + 1 then 1 else 0)"
proof -
  have "m = 1 \<or> m = 2 \<or> m = 3 \<or> m = 4 \<or> m = 5 \<or> m = 6 \<or> m = 7 \<or> m = 8 \<or> m = 9
         \<or> m = 10 \<or> m = 11"
    using assms by arith
  then show ?thesis
    by (elim disjE) (simp_all add: daysBefore_def daysIn_def)
qed

lemma month_start_mono:
  assumes "1 \<le> m" "m \<le> m'" "m' \<le> 12"
  shows "daysBefore m + (if isLeap y \<and> 3 \<le> m then 1 else 0)
         \<le> daysBefore m' + (if isLeap y \<and> 3 \<le> m' then 1 else 0)"
  using assms(2,3)
proof (induction m' rule: int_ge_induct)
  case base
  show ?case by simp
next
  case (step i)
  have "0 \<le> daysIn i y" by (simp add: daysIn_def)
  moreover have "daysBefore i + (if isLeap y \<and> 3 \<le> i then 1 else 0) + daysIn i y
         = daysBefore (i + 1) + (if isLeap y \<and> 3 \<le> i + 1 then 1 else 0)"
    using assms(1) step by (intro month_step) simp_all
  moreover have "daysBefore m + (if isLeap y \<and> 3 \<le> m then 1 else 0)
         \<le> daysBefore i + (if isLeap y \<and> 3 \<le> i then 1 else 0)"
    using step by simp
  ultimately show ?case by linarith
qed

lemma day_of_year_month_mono:
  assumes "1 \<le> m" "m < m'" "m' \<le> 12" "d \<le> daysIn m y" "1 \<le> d'"
  shows "day_of_year y m d < day_of_year y m' d'"
proof -
  have "daysBefore m + (if isLeap y \<and> 3 \<le> m then 1 else 0) + daysIn m y
         = daysBefore (m + 1) + (if isLeap y \<and> 3 \<le> m + 1 then 1 else 0)"
    using assms(1-3) by (intro month_step) simp_all
  moreover have "daysBefore (m + 1) + (if isLeap y \<and> 3 \<le> m + 1 then 1 else 0)
         \<le> daysBefore m' + (if isLeap y \<and> 3 \<le> m' then 1 else 0)"
    using assms(1-3) by (intro month_start_mono) simp_all
  ultimately have "daysBefore m + (if isLeap y \<and> 3 \<le> m then 1 else 0) + daysIn m y
      \<le> daysBefore m' + (if isLeap y \<and> 3 \<le> m' then 1 else 0)"
    by simp
  with assms(4,5) show ?thesis
    by (simp add: day_of_year_def)
qed

text \<open>The day count follows the order of the calendar.\<close>

lemma daysSinceZero_mono:
  assumes "1 \<le> m" "m \<le> 12" "1 \<le> d" "d \<le> daysIn m y"
    and "1 \<le> m'" "m' \<le> 12" "1 \<le> d'" "d' \<le> daysIn m' y'"
    and "y < y' \<or> (y = y' \<and> m < m') \<or> (y = y' \<and> m = m' \<and> d < d')"
  shows "daysSinceZero y m d < daysSinceZero y' m' d'"
proof -
  consider "y < y'" | "y = y'" "m < m'" | "y = y'" "m = m'" "d < d'"
    using assms(9) by blast
  then show ?thesis
  proof cases
    case 1
    have "day_of_year y m d < 365 + (if isLeap y then 1 else 0)"
      using assms(1-4) by (rule day_of_year_bounds)
    moreover have "0 \<le> day_of_year y' m' d'"
      using assms(5-8) by (rule day_of_year_bounds)
    moreover have "year_start y + 365 + (if isLeap y then 1 else 0) \<le> year_start y'"
      using 1 by (rule year_start_mono)
    ultimately show ?thesis
      by (simp add: daysSinceZero_split)
  next
    case 2
    have "day_of_year y m d < day_of_year y m' d'"
      using assms(1) 2(2) assms(6) assms(4) assms(7) by (rule day_of_year_month_mono)
    with 2(1) show ?thesis by (simp add: daysSinceZero_split)
  next
    case 3
    then show ?thesis by (simp add: daysSinceZero_def)
  qed
qed

subsection \<open>Formatting and parsing a clock reading\<close>

lemma appendInt_4: "0 \<le> y \<Longrightarrow> y \<le> 9999 \<Longrightarrow>
  appendInt y 4 = [digit_char (nat y div 1000), digit_char (nat y div 100 mod 10),
             digit_char (nat y div 10 mod 10), digit_char (nat y mod 10)]"
  by (simp add: appendInt_def four_digits)

lemma appendInt_2: "0 \<le> i \<Longrightarrow> i < 100 \<Longrightarrow>
  appendInt i 2 = [digit_char (nat i div 10), digit_char (nat i mod 10)]"
  by (simp add: appendInt_def two_digits)

lemma Parse_Format_date:
  assumes "civil_ok t"
  shows "Parse_date (Format_date t) =
           Inr (daysSinceZero (year t) (month t) (day t) * 86400 * 1000000000)"
proof -
  let ?n = "nat (year t)" and ?p = "nat (month t)" and ?q = "nat (day t)"
  have y: "0 \<le> year t" "year t \<le> 9999" and m: "0 \<le> month t" "month t < 100" "1 \<le> month t" "month t \<le> 12"
    and d0: "1 \<le> day t" "day t \<le> daysIn (month t) (year t)"
    using assms by (simp_all add: civil_ok_def)
  have "daysIn (month t) (year t) \<le> 31" by (simp add: daysIn_def)
  with d0 have d: "0 \<le> day t" "day t < 100" by simp_all
  have v: "Format_date t =
     [digit_char (?n div 1000), digit_char (?n div 100 mod 10), digit_char (?n div 10 mod 10),
      digit_char (?n mod 10), CHR ''-'', digit_char (?p div 10), digit_char (?p mod 10),
      CHR ''-'', digit_char (?q div 10), digit_char (?q mod 10)]"
    using y m d by (simp add: Format_date_def appendInt_4 appendInt_2)
  have b: "?n div 1000 < 10" "?n div 100 mod 10 < 10" "?n div 10 mod 10 < 10" "?n mod 10 < 10"
     "?p div 10 < 10" "?p mod 10 < 10" "?q div 10 < 10" "?q mod 10 < 10"
    using y m d by auto
  have yy: "int (?n div 1000 * 1000 + ?n div 100 mod 10 * 100 + ?n div 10 mod 10 * 10 + ?n mod 10) = year t"
    using y by (simp only: nat_of_digits_4)
  have mm: "int (?p div 10) * 10 + int (?p mod 10) = month t"
    using m by (simp add: zdiv_int zmod_int)
  have dd: "int (?q div 10) * 10 + int (?q mod 10) = day t"
    using d by (simp add: zdiv_int zmod_int)
  show ?thesis
    unfolding v Parse_date_digits [OF b] Let_def yy mm dd
    using m d0 by auto
qed

lemma Before_Truncate_day:
  "Before (D * 86400 * 1000000000) (Truncate i (24 * Hour)) = (D < i div (24 * Hour))"
proof -
  have h: "24 * Hour = 86400 * 1000000000" by (simp add: Hour_def)
  have "i - i mod (86400 * 1000000000) = 86400 * 1000000000 * (i div (86400 * 1000000000))"
    by (simp add: minus_mod_eq_mult_div)
  then show ?thesis
    unfolding h by (simp add: Before_def Truncate_def)
qed


lemma Before_Truncate_day':
  "Before (86400000000000 * D) (Truncate i (24 * Hour)) = (D < i div (24 * Hour))"
  using Before_Truncate_day [of D i] by simp

lemma submissions_loop_iff:
  "submissions_loop subs = (\<not> (\<exists>s\<in>set subs. State s = ''TURNED_IN''))"
  by (induction subs) auto

lemma isCourseworkVisible_due:
  assumes "DueDate c = Some dd"
  shows "isCourseworkVisible srv clk c =
    (if \<not> date_ok (Year dd) (Month dd) (Day dd)
     then ((False, Some (ParseError (Sprintf_date (Year dd) (Month dd) (Day dd)))), [])
     else if daysSinceZero (Year dd) (Month dd) (Day dd) < today (snd clk)
     then ((False, None), [])
     else (case StudentSubmissions_List srv (CourseId c) (Id_cw c) of
             Inl err \<Rightarrow> ((False, Some err), [ListSubmissions (CourseId c) (Id_cw c)])
           | Inr wr \<Rightarrow> ((submissions_loop wr, None), [ListSubmissions (CourseId c) (Id_cw c)])))"
  using assms
  by (simp add: isCourseworkVisible_def Parse_Sprintf_date Before_Truncate_day' today_def)

lemma isCourseworkVisible_no_due:
  assumes "DueDate c = None" "civil_ok (fst clk)"
  shows "isCourseworkVisible srv clk c =
    (if daysSinceZero (year (fst clk)) (month (fst clk)) (day (fst clk)) < today (snd clk)
     then ((False, None), [])
     else (case StudentSubmissions_List srv (CourseId c) (Id_cw c) of
             Inl err \<Rightarrow> ((False, Some err), [ListSubmissions (CourseId c) (Id_cw c)])
           | Inr wr \<Rightarrow> ((submissions_loop wr, None), [ListSubmissions (CourseId c) (Id_cw c)])))"
  using assms
  by (simp add: isCourseworkVisible_def Parse_Format_date Before_Truncate_day' today_def)

subsection \<open>The example world\<close>

lemma today_japan_morning: "today japan_morning = 739189"
  by (simp add: today_def instant_of_def japan_morning_def daysSinceZero_def daysBefore_def
      isLeap_def Hour_def)

lemma today_new_york_evening: "today new_york_evening = 739189"
  by (simp add: today_def instant_of_def new_york_evening_def daysSinceZero_def daysBefore_def
      isLeap_def Hour_def)

lemma civil_ok_examples: "civil_ok japan_morning" "civil_ok new_york_evening"
  by (simp_all add: civil_ok_def japan_morning_def new_york_evening_def daysIn_def)

lemma day_numbers:
  "daysSinceZero 2024 10 30 = 739188" "daysSinceZero 2024 10 31 = 739189"
  "daysSinceZero 2024 11 1 = 739190" "daysSinceZero 999 12 31 = 364876"
  by (simp_all add: daysSinceZero_def daysBefore_def isLeap_def)

lemma date_ok_examples:
  "date_ok 2024 10 30" "date_ok 2024 11 1" "\<not> date_ok 2024 13 1" "\<not> date_ok 999 12 31"
  by (simp_all add: date_ok_def daysIn_def)

lemma Sprintf_date_examples:
  "Sprintf_date 999 12 31 = ''999-12-31''" "Sprintf_date 2024 13 1 = ''2024-13-01''"
  by (simp_all add: Sprintf_date_def fmt_d_def fmt_02d_def zero_pad_def digits_lt10 digits_2
      digits_3 digits_4 digit_char_numerals digit_char_Suc_0)


lemma example_lookups:
  "StudentSubmissions_List example_srv ''C1'' ''A1'' = Inr []"
  "StudentSubmissions_List example_srv ''C1'' ''A2'' = Inr []"
  "StudentSubmissions_List example_srv ''C1'' ''A3'' = Inr [\<lparr>State = ''CREATED''\<rparr>, \<lparr>State = ''TURNED_IN''\<rparr>]"
  "StudentSubmissions_List example_srv ''C1'' ''A4'' = Inr []"
  "StudentSubmissions_List example_srv ''C1'' ''A5'' = Inl (RemoteError ''lookup'')"
  by (simp_all add: example_srv_def)

lemma example_fields:
  "DueDate A1 = Some \<lparr>Year = 2024, Month = 10, Day = 30\<rparr>" "CourseId A1 = ''C1''" "Id_cw A1 = ''A1''"
  "DueDate A2 = Some \<lparr>Year = 2024, Month = 11, Day = 1\<rparr>" "CourseId A2 = ''C1''" "Id_cw A2 = ''A2''"
  "DueDate A3 = None" "CourseId A3 = ''C1''" "Id_cw A3 = ''A3''"
  "DueDate A4 = None" "CourseId A4 = ''C1''" "Id_cw A4 = ''A4''"
  "DueDate A5 = Some \<lparr>Year = 2024, Month = 11, Day = 1\<rparr>" "CourseId A5 = ''C1''" "Id_cw A5 = ''A5''"
  "DueDate A6 = Some \<lparr>Year = 2024, Month = 13, Day = 1\<rparr>" "CourseId A6 = ''C1''" "Id_cw A6 = ''A6''"
  "DueDate A7 = Some \<lparr>Year = 999, Month = 12, Day = 31\<rparr>" "CourseId A7 = ''C1''" "Id_cw A7 = ''A7''"
  by (simp_all add: A1_def A2_def A3_def A4_def A5_def A6_def A7_def assignment_def)

text \<open>What the filter answers in Japan on the morning of October 31.\<close>

lemma example_checks:
  "isCourseworkVisible example_srv (japan_morning, japan_morning) A1 = ((False, None), [])"
  "isCourseworkVisible example_srv (japan_morning, japan_morning) A2
     = ((True, None), [ListSubmissions ''C1'' ''A2''])"
  "isCourseworkVisible example_srv (japan_morning, japan_morning) A3
     = ((False, None), [ListSubmissions ''C1'' ''A3''])"
  "isCourseworkVisible example_srv (japan_morning, japan_morning) A4
     = ((True, None), [ListSubmissions ''C1'' ''A4''])"
  "isCourseworkVisible example_srv (japan_morning, japan_morning) A5
     = ((False, Some (RemoteError ''lookup'')), [ListSubmissions ''C1'' ''A5''])"
  "isCourseworkVisible example_srv (japan_morning, japan_morning) A6
     = ((False, Some (ParseError ''2024-13-01'')), [])"
  "isCourseworkVisible example_srv (japan_morning, japan_morning) A7
     = ((False, Some (ParseError ''999-12-31'')), [])"
  by (simp_all add: isCourseworkVisible_due isCourseworkVisible_no_due example_fields
      example_lookups date_ok_examples day_numbers today_japan_morning civil_ok_examples
      Sprintf_date_examples japan_morning_def [THEN arg_cong, of year]
      japan_morning_def [THEN arg_cong, of month] japan_morning_def [THEN arg_cong, of day])


subsection \<open>The lister\<close>

lemma spawn_checks_append:
  "spawn_checks srv clks j (xs @ ys) =
     (fst (spawn_checks srv clks j xs) + fst (spawn_checks srv clks (j + length xs) ys),
      snd (spawn_checks srv clks j xs) + snd (spawn_checks srv clks (j + length xs) ys))"
  by (induction xs arbitrary: j) (simp_all add: ac_simps)

lemma lister_returns:
  assumes "CourseWork_List srv courseId = Inr r"
  shows "fst (listCourseWorkFromCourseId srv clks courseId) = Returned"
    and "fst (snd (listCourseWorkFromCourseId srv clks courseId)) = fst (spawn_checks srv clks 0 r)"
  using assms by (cases r; simp add: listCourseWorkFromCourseId_def)+

lemma lister_skips:
  assumes "CourseWork_List srv courseId = Inr (xs @ c # ys)"
    and "fst (check_and_send srv (clks (length xs)) c) = {#}"
  shows "fst (snd (listCourseWorkFromCourseId srv clks courseId)) =
           fst (spawn_checks srv clks 0 xs) + fst (spawn_checks srv clks (Suc (length xs)) ys)"
  using assms by (simp add: lister_returns(2) spawn_checks_append)

lemma sent_only_if_visible:
  "x \<in># fst (check_and_send srv clk c) \<Longrightarrow>
     x = c \<and> fst (isCourseworkVisible srv clk c) = (True, None)"
  by (auto simp: check_and_send_def split: prod.splits if_splits)

lemma spawn_checks_sent:
  "x \<in># fst (spawn_checks srv clks j cs) \<Longrightarrow>
     \<exists>i. fst (isCourseworkVisible srv (clks i) x) = (True, None)"
proof (induction cs arbitrary: j)
  case Nil
  then show ?case by simp
next
  case (Cons c cs)
  from Cons.prems have "x \<in># fst (check_and_send srv (clks j) c)
      \<or> x \<in># fst (spawn_checks srv clks (Suc j) cs)"
    by simp
  then show ?case
  proof
    assume "x \<in># fst (check_and_send srv (clks j) c)"
    then have "fst (isCourseworkVisible srv (clks j) x) = (True, None)"
      using sent_only_if_visible by blast
    then show ?thesis ..
  next
    assume "x \<in># fst (spawn_checks srv clks (Suc j) cs)"
    then show ?thesis by (rule Cons.IH)
  qed
qed

lemma lister_sent:
  "x \<in># fst (snd (listCourseWorkFromCourseId srv clks courseId)) \<Longrightarrow>
     \<exists>i. fst (isCourseworkVisible srv (clks i) x) = (True, None)"
  by (auto simp: listCourseWorkFromCourseId_def dest: spawn_checks_sent
      split: sum.splits if_splits)

lemma lookup_failure_never_visible:
  assumes "StudentSubmissions_List srv (CourseId c) (Id_cw c) = Inl err"
  shows "fst (isCourseworkVisible srv clk c) \<noteq> (True, None)"
  using assms
  by (auto simp: isCourseworkVisible_def Let_def split: sum.splits option.splits)

lemma unparseable_never_visible:
  assumes "DueDate c = Some dd" "\<not> date_ok (Year dd) (Month dd) (Day dd)"
  shows "fst (isCourseworkVisible srv clk c) \<noteq> (True, None)"
  using assms by (simp add: isCourseworkVisible_due)

subsection \<open>The date of the clock and the day in UTC\<close>

lemma today_civil_day:
  "today t = civil_day t + (nsec_of_day t - zone_offset t * 1000000000) div 86400000000000"
proof -
  have "instant_of t = civil_day t * 86400000000000 + (nsec_of_day t - zone_offset t * 1000000000)"
    by (simp add: instant_of_def civil_day_def algebra_simps)
  then show ?thesis by (simp add: today_def Hour_def)
qed

lemma today_before_civil_day:
  "(today t < civil_day t) = (nsec_of_day t < zone_offset t * 1000000000)"
proof -
  let ?r = "nsec_of_day t - zone_offset t * 1000000000"
  have "(?r div 86400000000000 < 0) = (?r < 0)"
    by (rule pos_imp_zdiv_neg_iff) simp
  then show ?thesis by (simp add: today_civil_day)
qed

lemma today_after_civil_day:
  "(civil_day t < today t) = (86400000000000 \<le> nsec_of_day t - zone_offset t * 1000000000)"
  using pos_imp_zdiv_pos_iff [of 86400000000000 "nsec_of_day t - zone_offset t * 1000000000"]
  by (simp add: today_civil_day)

lemma japan_early_facts:
  "civil_day japan_early = 739190" "today japan_early = 739189"
  "Truncate (instant_of japan_early) (24 * Hour) = 739189 * 86400 * 1000000000"
  "Format_date japan_early = ''2024-11-01''"
  by (simp_all add: civil_day_def today_def Truncate_def instant_of_def japan_early_def
      daysSinceZero_def daysBefore_def isLeap_def Hour_def Format_date_def appendInt_def
      zero_pad_def digits_lt10 digits_2 digits_4 digit_char_numerals digit_char_Suc_0)

lemma A8_fields:
  "DueDate A8 = Some \<lparr>Year = 2024, Month = 10, Day = 31\<rparr>" "CourseId A8 = ''C1''" "Id_cw A8 = ''A8''"
  "StudentSubmissions_List example_srv ''C1'' ''A8'' = Inr []"
  "date_ok 2024 10 31"
  by (simp_all add: A8_def assignment_def example_srv_def date_ok_def daysIn_def)

lemma new_york_evening_facts:
  "civil_day new_york_evening = 739188"
  "Format_date new_york_evening = ''2024-10-30''"
  "Truncate (instant_of new_york_evening) (24 * Hour) = 739189 * 86400 * 1000000000"
  by (simp_all add: civil_day_def Truncate_def instant_of_def new_york_evening_def
      daysSinceZero_def daysBefore_def isLeap_def Hour_def Format_date_def appendInt_def
      zero_pad_def digits_2 digits_4 digit_char_numerals digit_char_Suc_0)

lemma example_listings:
  "CourseWork_List example_srv ''C1'' = Inr ([A1] @ A2 # [A3, A4])"
  "CourseWork_List example_srv ''C2'' = Inr []"
  "CourseWork_List example_srv ''C3'' = Inr ([A2] @ A5 # [A4])"
  "CourseWork_List example_srv ''C4'' = Inr ([A2] @ A6 # [A4])"
  "CourseWork_List example_srv ''C9'' = Inl (RemoteError ''transport'')"
  by (simp_all add: example_srv_def)

lemma example_distinct: "A5 \<noteq> A2" "A5 \<noteq> A4" "A6 \<noteq> A2" "A6 \<noteq> A4"
  by (simp_all add: A2_def A4_def A5_def A6_def assignment_def)

lemma example_sends:
  "fst (check_and_send example_srv (japan_morning, japan_morning) A2) = {#A2#}"
  "fst (check_and_send example_srv (japan_morning, japan_morning) A4) = {#A4#}"
  by (simp_all add: check_and_send_def example_checks)

section \<open>Lemmas about the process\<close>

subsection \<open>Sums over the goroutines\<close>

lemma sum_upd:
  fixes F :: "nat \<Rightarrow> 'a \<Rightarrow> 'b::comm_monoid_add"
  assumes "k < n"
  shows "(\<Sum>i<n. F i ((g(k := v)) i)) + F k (g k) = (\<Sum>i<n. F i (g i)) + F k v"
proof -
  have k: "k \<in> {..<n}" using assms by simp
  have "(\<Sum>i<n. F i ((g(k := v)) i)) = F k v + (\<Sum>i\<in>{..<n} - {k}. F i ((g(k := v)) i))"
    using k by (simp add: sum.remove)
  moreover have "(\<Sum>i\<in>{..<n} - {k}. F i ((g(k := v)) i)) = (\<Sum>i\<in>{..<n} - {k}. F i (g i))"
    by (rule sum.cong) simp_all
  moreover have "(\<Sum>i<n. F i (g i)) = F k (g k) + (\<Sum>i\<in>{..<n} - {k}. F i (g i))"
    using k by (simp add: sum.remove)
  ultimately show ?thesis by (simp add: ac_simps)
qed

lemma sum_upd_same:
  fixes F :: "nat \<Rightarrow> 'a \<Rightarrow> 'b::comm_monoid_add"
  assumes "F k v = F k (g k)"
  shows "(\<Sum>i<n. F i ((g(k := v)) i)) = (\<Sum>i<n. F i (g i))"
  by (rule sum.cong) (use assms in auto)

lemma alive_listers_upd:
  "k < ncourses w \<Longrightarrow>
     alive_listers w (f(k := v)) + lalive (f k) = alive_listers w f + lalive v"
  unfolding alive_listers_def by (rule sum_upd [where F = "\<lambda>i. lalive"])

lemma alive_listers_same:
  "lalive v = lalive (f k) \<Longrightarrow> alive_listers w (f(k := v)) = alive_listers w f"
  unfolding alive_listers_def by (rule sum_upd_same [where F = "\<lambda>i. lalive"])

lemma alive_workers_upd:
  "j < nworks w i \<Longrightarrow>
     alive_workers w i (row(j := v)) + walive (row j) = alive_workers w i row + walive v"
  unfolding alive_workers_def by (rule sum_upd [where F = "\<lambda>i. walive"])

lemma alive_workers_same:
  "walive v = walive (row j) \<Longrightarrow> alive_workers w i (row(j := v)) = alive_workers w i row"
  unfolding alive_workers_def by (rule sum_upd_same [where F = "\<lambda>i. walive"])

lemma sent_by_upd:
  "j < nworks w i \<Longrightarrow>
     sent_by w i (row(j := v)) + wout w i j (row j) = sent_by w i row + wout w i j v"
  unfolding sent_by_def by (rule sum_upd [where F = "wout w i"])

lemma sent_by_same:
  "wout w i j v = wout w i j (row j) \<Longrightarrow> sent_by w i (row(j := v)) = sent_by w i row"
  unfolding sent_by_def by (rule sum_upd_same [where F = "wout w i"])

lemma sent_total_upd:
  "i < ncourses w \<Longrightarrow>
     sent_total w (wp(i := row)) + sent_by w i (wp i) = sent_total w wp + sent_by w i row"
  unfolding sent_total_def by (rule sum_upd [where F = "sent_by w"])

lemma sent_total_same:
  "sent_by w i row = sent_by w i (wp i) \<Longrightarrow> sent_total w (wp(i := row)) = sent_total w wp"
  unfolding sent_total_def by (rule sum_upd_same [where F = "sent_by w"])

lemma alive_listers_0: "alive_listers w (\<lambda>i. L_unborn) = 0"
  by (simp add: alive_listers_def)

lemma alive_workers_0: "alive_workers w i (\<lambda>j. W_unborn) = 0"
  by (simp add: alive_workers_def)

lemma sent_total_0: "sent_total w (\<lambda>i j. W_unborn) = {#}"
  by (simp add: sent_total_def sent_by_def wout_def)

lemma inv_init: "invariant w init"
  by (simp add: invariant_def init_def inv_main_def inv_wg_def inv_wg2_def inv_lister_def
      inv_closer_def inv_exit_def inv_out_def alive_listers_0 alive_workers_0 sent_total_0)

subsection \<open>Every step keeps the invariant\<close>

lemmas inv_defs = inv_main_def inv_wg_def inv_wg2_def inv_lister_def inv_closer_def
  inv_exit_def inv_out_def

lemma frontier_step:
  assumes fr: "\<forall>i. (f i = a) = (k \<le> i)" and "b \<noteq> a"
  shows "\<forall>i. ((f(k := b)) i = a) = (Suc k \<le> i)"
proof (intro allI)
  fix i
  show "((f(k := b)) i = a) = (Suc k \<le> i)"
  proof (cases "i = k")
    case True
    with assms(2) show ?thesis by simp
  next
    case False
    then have "(k \<le> i) = (Suc k \<le> i)" by arith
    with fr False show ?thesis by simp
  qed
qed


lemma inv_main_frame:
  "inv_main w s \<Longrightarrow> mainpc s' = mainpc s \<Longrightarrow> listerpc s' = listerpc s \<Longrightarrow>
   closerpc s' = closerpc s \<Longrightarrow> inv_main w s'"
  by (simp add: inv_main_def)

lemma inv_wg_frame:
  "inv_wg w s \<Longrightarrow> wg s' = wg s \<Longrightarrow> listerpc s' = listerpc s \<Longrightarrow> inv_wg w s'"
  by (simp add: inv_wg_def)

lemma inv_wg2_frame:
  "inv_wg2 w s \<Longrightarrow> wg2 s' = wg2 s \<Longrightarrow> workerpc s' = workerpc s \<Longrightarrow> inv_wg2 w s'"
  by (simp add: inv_wg2_def)

lemma inv_lister_frame:
  "inv_lister w s \<Longrightarrow> listerpc s' = listerpc s \<Longrightarrow> workerpc s' = workerpc s \<Longrightarrow>
   inv_lister w s'"
  by (simp add: inv_lister_def)

lemma inv_closer_frame:
  "inv_closer w s \<Longrightarrow> closerpc s' = closerpc s \<Longrightarrow> listerpc s' = listerpc s \<Longrightarrow>
   ch_closed s' = ch_closed s \<Longrightarrow> n_close s' = n_close s \<Longrightarrow> inv_closer w s'"
  by (simp add: inv_closer_def)

lemma inv_exit_frame:
  "inv_exit w s \<Longrightarrow> exit_status s' = exit_status s \<Longrightarrow> mainpc s' = mainpc s \<Longrightarrow>
   ch_closed s' = ch_closed s \<Longrightarrow> inv_exit w s'"
  by (simp add: inv_exit_def)

lemma inv_out_frame:
  "inv_out w s \<Longrightarrow> workerpc s' = workerpc s \<Longrightarrow> stdout s' = stdout s \<Longrightarrow>
   mainpc s' = mainpc s \<Longrightarrow> inv_out w s'"
  by (simp add: inv_out_def)

lemma invD:
  assumes "invariant w s"
  shows "inv_main w s" "inv_wg w s" "inv_wg2 w s" "inv_lister w s" "inv_closer w s"
    "inv_exit w s" "inv_out w s"
  using assms by (simp_all add: invariant_def)

lemma invI:
  "inv_main w s \<Longrightarrow> inv_wg w s \<Longrightarrow> inv_wg2 w s \<Longrightarrow> inv_lister w s \<Longrightarrow> inv_closer w s \<Longrightarrow>
   inv_exit w s \<Longrightarrow> inv_out w s \<Longrightarrow> invariant w s"
  by (simp add: invariant_def)

lemma inv_step_main:
  assumes i: "invariant w s" and st: "step_main w s = Some s'"
  shows "invariant w s'"
proof (cases "mainpc s")
  case (M_spawn k)
  from invD(1) [OF i] M_spawn have kn': "k \<le> ncourses w"
    and fr: "\<forall>i. (listerpc s i = L_unborn) = (k \<le> i)"
    and cl: "closerpc s = K_unborn"
    by (simp_all add: inv_main_def)
  show ?thesis
  proof (cases "k < length (w_courseIds w)")
    case True
    with M_spawn st have s': "s' = s\<lparr>wg := wg s + 1, listerpc := (listerpc s)(k := L_list),
                        mainpc := M_spawn (Suc k)\<rparr>"
      by (simp add: step_main_def)
    from fr have u: "listerpc s k = L_unborn" by simp
    have kn: "k < ncourses w" using True by (simp add: ncourses_def)
    have "\<forall>i. (((listerpc s)(k := L_list)) i = L_unborn) = (Suc k \<le> i)"
      using fr by (rule frontier_step) simp
    then have "inv_main w s'" using kn cl
      by (simp add: inv_main_def s')
    moreover have "inv_wg w s'"
      using invD(2) [OF i] alive_listers_upd [OF kn, of "listerpc s" L_list] u
      by (simp add: inv_wg_def s')
    moreover have "inv_wg2 w s'"
      by (rule inv_wg2_frame [OF invD(3) [OF i]]) (simp_all add: s')
    moreover have "inv_lister w s'"
    proof -
      have "lister_ok w k L_list (workerpc s k)"
        using invD(4) [OF i] u by (simp add: inv_lister_def) (metis lister_ok.simps(1,2))
      then show ?thesis using invD(4) [OF i] by (simp add: inv_lister_def s')
    qed
    moreover have "inv_closer w s'" using invD(5) [OF i] cl
      by (simp add: inv_closer_def s')
    moreover have "inv_exit w s'" using invD(6) [OF i] M_spawn
      by (auto simp: inv_exit_def s')
    moreover have "inv_out w s'" using invD(7) [OF i] M_spawn
      by (simp add: inv_out_def s')
    ultimately show ?thesis by (rule invI)
  next
    case False
    with M_spawn st have s': "s' = s\<lparr>closerpc := K_wait, mainpc := M_recv\<rparr>"
      by (simp add: step_main_def)
    from kn' False have k: "k = ncourses w"
      by (simp add: ncourses_def)
    have "inv_main w s'" using fr k by (simp add: inv_main_def s')
    moreover have "inv_wg w s'"
      by (rule inv_wg_frame [OF invD(2) [OF i]]) (simp_all add: s')
    moreover have "inv_wg2 w s'"
      by (rule inv_wg2_frame [OF invD(3) [OF i]]) (simp_all add: s')
    moreover have "inv_lister w s'"
      by (rule inv_lister_frame [OF invD(4) [OF i]]) (simp_all add: s')
    moreover have "inv_closer w s'" using invD(5) [OF i] cl
      by (simp add: inv_closer_def s')
    moreover have "inv_exit w s'" using invD(6) [OF i] M_spawn
      by (auto simp: inv_exit_def s')
    moreover have "inv_out w s'" using invD(7) [OF i] M_spawn
      by (simp add: inv_out_def s')
    ultimately show ?thesis by (rule invI)
  qed
next
  case M_recv
  with st have c: "ch_closed s" and s': "s' = s\<lparr>mainpc := M_done, exit_status := Some 0\<rparr>"
    by (simp_all add: step_main_def split: if_splits)
  have "inv_main w s'" using invD(1) [OF i] M_recv by (simp add: inv_main_def s')
  moreover have "inv_wg w s'"
    by (rule inv_wg_frame [OF invD(2) [OF i]]) (simp_all add: s')
  moreover have "inv_wg2 w s'"
    by (rule inv_wg2_frame [OF invD(3) [OF i]]) (simp_all add: s')
  moreover have "inv_lister w s'"
    by (rule inv_lister_frame [OF invD(4) [OF i]]) (simp_all add: s')
  moreover have "inv_closer w s'"
    by (rule inv_closer_frame [OF invD(5) [OF i]]) (simp_all add: s')
  moreover have "inv_exit w s'" using c by (simp add: inv_exit_def s')
  moreover have "inv_out w s'" using invD(7) [OF i] M_recv by (simp add: inv_out_def s')
  ultimately show ?thesis by (rule invI)
next
  case (M_print c)
  with st have s': "s' = s\<lparr>stdout := stdout s @ [line_of c], mainpc := M_recv\<rparr>"
    by (simp add: step_main_def line_of_def)
  have "inv_main w s'" using invD(1) [OF i] M_print by (simp add: inv_main_def s')
  moreover have "inv_wg w s'"
    by (rule inv_wg_frame [OF invD(2) [OF i]]) (simp_all add: s')
  moreover have "inv_wg2 w s'"
    by (rule inv_wg2_frame [OF invD(3) [OF i]]) (simp_all add: s')
  moreover have "inv_lister w s'"
    by (rule inv_lister_frame [OF invD(4) [OF i]]) (simp_all add: s')
  moreover have "inv_closer w s'"
    by (rule inv_closer_frame [OF invD(5) [OF i]]) (simp_all add: s')
  moreover have "inv_exit w s'" using invD(6) [OF i] M_print by (auto simp: inv_exit_def s')
  moreover have "inv_out w s'" using invD(7) [OF i] M_print by (simp add: inv_out_def s')
  ultimately show ?thesis by (rule invI)
next
  case M_done
  with st show ?thesis by (simp add: step_main_def)
qed


lemma main_ok_born:
  "main_ok w pc f c \<Longrightarrow> c \<noteq> K_unborn \<Longrightarrow> (f i = L_unborn) = (ncourses w \<le> i)"
  by (cases pc) simp_all

lemma main_ok_lt:
  "main_ok w pc f c \<Longrightarrow> f i \<noteq> L_unborn \<Longrightarrow> i < ncourses w"
  by (cases pc) (auto simp: not_le [symmetric])

lemma main_ok_closer:
  "main_ok w pc f c \<Longrightarrow> c \<noteq> K_unborn \<Longrightarrow> c' \<noteq> K_unborn \<Longrightarrow> main_ok w pc f c'"
  by (cases pc) simp_all

lemma main_ok_upd:
  "main_ok w pc f c \<Longrightarrow> f i \<noteq> L_unborn \<Longrightarrow> v \<noteq> L_unborn \<Longrightarrow> main_ok w pc (f(i := v)) c"
  by (cases pc) auto

lemma alive_listers_pos:
  "i < ncourses w \<Longrightarrow> lalive (f i) = 1 \<Longrightarrow> 0 < alive_listers w f"
proof -
  assume a: "i < ncourses w" "lalive (f i) = 1"
  have "lalive (f i) \<le> alive_listers w f"
    unfolding alive_listers_def using a(1)
    by (intro member_le_sum) simp_all
  with a(2) show ?thesis by simp
qed

lemma alive_listers_zero:
  "alive_listers w f = 0 \<Longrightarrow> i < ncourses w \<Longrightarrow> lalive (f i) = 0"
  using alive_listers_pos [of i w f] by (cases "f i") auto

lemma alive_workers_pos:
  "j < nworks w i \<Longrightarrow> walive (row j) = 1 \<Longrightarrow> 0 < alive_workers w i row"
proof -
  assume a: "j < nworks w i" "walive (row j) = 1"
  have "walive (row j) \<le> alive_workers w i row"
    unfolding alive_workers_def using a(1)
    by (intro member_le_sum) simp_all
  with a(2) show ?thesis by simp
qed

lemma alive_workers_zero:
  "alive_workers w i row = 0 \<Longrightarrow> j < nworks w i \<Longrightarrow> walive (row j) = 0"
  using alive_workers_pos [of j w i row] by (cases "row j") auto

lemma inv_all_done:
  assumes i: "invariant w s" and c: "closerpc s = K_close \<or> closerpc s = K_done"
  shows "\<forall>i<ncourses w. listerpc s i = L_done"
  using invD(5) [OF i] c by (auto simp: inv_closer_def)

lemma inv_step_closer:
  assumes i: "invariant w s" and st: "step_closer s = Some s'"
  shows "invariant w s'"
proof (cases "closerpc s")
  case K_unborn
  with st show ?thesis by (simp add: step_closer_def)
next
  case K_wait
  with st have z: "wg s = 0" and s': "s' = s\<lparr>closerpc := K_close\<rparr>"
    by (simp_all add: step_closer_def split: if_splits)
  from z invD(2) [OF i] have a0: "alive_listers w (listerpc s) = 0" by (simp add: inv_wg_def)
  have m: "main_ok w (mainpc s) (listerpc s) (closerpc s)"
    using invD(1) [OF i] by (simp add: inv_main_def)
  have alldone: "\<forall>i<ncourses w. listerpc s i = L_done"
  proof (intro allI impI)
    fix i assume lt: "i < ncourses w"
    have "lalive (listerpc s i) = 0" using a0 lt by (rule alive_listers_zero)
    moreover have "listerpc s i \<noteq> L_unborn"
      using main_ok_born [OF m, of i] K_wait lt by simp
    ultimately show "listerpc s i = L_done" by (cases "listerpc s i") simp_all
  qed
  have "inv_main w s'" using main_ok_closer [OF m, of K_close] K_wait
    by (simp add: inv_main_def s')
  moreover have "inv_wg w s'"
    by (rule inv_wg_frame [OF invD(2) [OF i]]) (simp_all add: s')
  moreover have "inv_wg2 w s'"
    by (rule inv_wg2_frame [OF invD(3) [OF i]]) (simp_all add: s')
  moreover have "inv_lister w s'"
    by (rule inv_lister_frame [OF invD(4) [OF i]]) (simp_all add: s')
  moreover have "inv_closer w s'" using invD(5) [OF i] alldone K_wait
    by (simp add: inv_closer_def s')
  moreover have "inv_exit w s'"
    by (rule inv_exit_frame [OF invD(6) [OF i]]) (simp_all add: s')
  moreover have "inv_out w s'"
    by (rule inv_out_frame [OF invD(7) [OF i]]) (simp_all add: s')
  ultimately show ?thesis by (rule invI)
next
  case K_close
  with invD(5) [OF i] have nc: "\<not> ch_closed s" by (simp add: inv_closer_def)
  with K_close st have s': "s' = s\<lparr>ch_closed := True, n_close := n_close s + 1,
      closerpc := K_done\<rparr>"
    by (simp add: step_closer_def)
  have m: "main_ok w (mainpc s) (listerpc s) (closerpc s)"
    using invD(1) [OF i] by (simp add: inv_main_def)
  have "inv_main w s'" using main_ok_closer [OF m, of K_done] K_close
    by (simp add: inv_main_def s')
  moreover have "inv_wg w s'"
    by (rule inv_wg_frame [OF invD(2) [OF i]]) (simp_all add: s')
  moreover have "inv_wg2 w s'"
    by (rule inv_wg2_frame [OF invD(3) [OF i]]) (simp_all add: s')
  moreover have "inv_lister w s'"
    by (rule inv_lister_frame [OF invD(4) [OF i]]) (simp_all add: s')
  moreover have "inv_closer w s'" using invD(5) [OF i] K_close
    by (simp add: inv_closer_def s')
  moreover have "inv_exit w s'" using invD(6) [OF i]
    by (simp add: inv_exit_def s')
  moreover have "inv_out w s'"
    by (rule inv_out_frame [OF invD(7) [OF i]]) (simp_all add: s')
  ultimately show ?thesis by (rule invI)
next
  case K_done
  with st show ?thesis by (simp add: step_closer_def)
qed


lemma nworks_Inr:
  "CourseWork_List (w_srv w) (w_courseIds w ! i) = Inr r \<Longrightarrow> nworks w i = length r"
  by (simp add: nworks_def assignments_def)

lemma inv_lister_upd:
  assumes "inv_lister w s" "lister_ok w i pc row"
  shows "inv_lister w (s\<lparr>listerpc := (listerpc s)(i := pc), workerpc := (workerpc s)(i := row)\<rparr>)"
  using assms by (simp add: inv_lister_def)

lemma inv_closer_early:
  assumes i: "invariant w s" and a: "listerpc s i \<noteq> L_unborn" "listerpc s i \<noteq> L_done"
  shows "closerpc s \<noteq> K_close" "closerpc s \<noteq> K_done" "\<not> ch_closed s"
proof -
  have m: "main_ok w (mainpc s) (listerpc s) (closerpc s)"
    using invD(1) [OF i] by (simp add: inv_main_def)
  have lt: "i < ncourses w" using m a(1) by (rule main_ok_lt)
  show "closerpc s \<noteq> K_close" "closerpc s \<noteq> K_done"
    using invD(5) [OF i] lt a(2) by (auto simp: inv_closer_def)
  then show "\<not> ch_closed s" using invD(5) [OF i] by (simp add: inv_closer_def)
qed

lemma inv_step_lister:
  assumes i: "invariant w s" and st: "step_lister w s i = Some s'" and ex: "exit_status s = None"
  shows "invariant w s'"
proof -
  have m: "main_ok w (mainpc s) (listerpc s) (closerpc s)"
    using invD(1) [OF i] by (simp add: inv_main_def)
  have lo: "lister_ok w i (listerpc s i) (workerpc s i)"
    using invD(4) [OF i] by (simp add: inv_lister_def)
  have nd: "mainpc s \<noteq> M_done" using invD(6) [OF i] ex by (simp add: inv_exit_def)
  text \<open>A step that only moves the lister between two states in which it is alive.\<close>
  have move: "invariant w (s\<lparr>listerpc := (listerpc s)(i := pc)\<rparr>)"
    if a: "lalive (listerpc s i) = 1" "lalive pc = 1" and ok: "lister_ok w i pc (workerpc s i)"
    for pc
  proof -
    let ?s = "s\<lparr>listerpc := (listerpc s)(i := pc)\<rparr>"
    from a have n: "listerpc s i \<noteq> L_unborn" "listerpc s i \<noteq> L_done" "pc \<noteq> L_unborn"
      "pc \<noteq> L_done" by auto
    have "inv_main w ?s" using main_ok_upd [OF m n(1) n(3)] by (simp add: inv_main_def)
    moreover have "inv_wg w ?s"
      using invD(2) [OF i] alive_listers_same [of pc "listerpc s" i w] a
      by (simp add: inv_wg_def)
    moreover have "inv_wg2 w ?s"
      by (rule inv_wg2_frame [OF invD(3) [OF i]]) simp_all
    moreover have "inv_lister w ?s"
      using inv_lister_upd [OF invD(4) [OF i] ok] by simp
    moreover have "inv_closer w ?s"
      using invD(5) [OF i] inv_closer_early [OF i n(1,2)] by (simp add: inv_closer_def)
    moreover have "inv_exit w ?s"
      by (rule inv_exit_frame [OF invD(6) [OF i]]) simp_all
    moreover have "inv_out w ?s"
      by (rule inv_out_frame [OF invD(7) [OF i]]) simp_all
    ultimately show ?thesis by (rule invI)
  qed
  show ?thesis
  proof (cases "listerpc s i")
    case L_unborn
    with st show ?thesis by (simp add: step_lister_def)
  next
    case L_list
    show ?thesis
    proof (cases "CourseWork_List (w_srv w) (w_courseIds w ! i)")
      case (Inl err)
      with L_list st have s': "s' = s\<lparr>listerpc := (listerpc s)(i := L_fatal err)\<rparr>"
        by (simp add: step_lister_def)
      from lo L_list Inl have "lister_ok w i (L_fatal err) (workerpc s i)" by simp
      with L_list show ?thesis unfolding s' by (intro move) simp_all
    next
      case (Inr r)
      show ?thesis
      proof (cases "length r \<le> 0")
        case True
        with Inr L_list st have s': "s' = s\<lparr>listerpc := (listerpc s)(i := L_ret)\<rparr>"
          by (simp add: step_lister_def)
        have "nworks w i = 0" using nworks_Inr [OF Inr] True by simp
        with lo L_list have "lister_ok w i L_ret (workerpc s i)" by simp
        with L_list show ?thesis unfolding s' by (intro move) simp_all
      next
        case False
        with Inr L_list st have s': "s' = s\<lparr>listerpc := (listerpc s)(i := L_spawn 0)\<rparr>"
          by (simp add: step_lister_def)
        from lo L_list have "lister_ok w i (L_spawn 0) (workerpc s i)" by simp
        with L_list show ?thesis unfolding s' by (intro move) simp_all
      qed
    qed
  next
    case (L_fatal err)
    with st have s': "s' = s\<lparr>exit_status := Some 1\<rparr>"
      by (simp add: step_lister_def)
    have "inv_main w s'"
      by (rule inv_main_frame [OF invD(1) [OF i]]) (simp_all add: s')
    moreover have "inv_wg w s'"
      by (rule inv_wg_frame [OF invD(2) [OF i]]) (simp_all add: s')
    moreover have "inv_wg2 w s'"
      by (rule inv_wg2_frame [OF invD(3) [OF i]]) (simp_all add: s')
    moreover have "inv_lister w s'"
      by (rule inv_lister_frame [OF invD(4) [OF i]]) (simp_all add: s')
    moreover have "inv_closer w s'"
      by (rule inv_closer_frame [OF invD(5) [OF i]]) (simp_all add: s')
    moreover have "inv_exit w s'" using invD(6) [OF i] nd
      by (simp add: inv_exit_def s')
    moreover have "inv_out w s'"
      by (rule inv_out_frame [OF invD(7) [OF i]]) (simp_all add: s')
    ultimately show ?thesis by (rule invI)
  next
    case (L_spawn j)
    from lo L_spawn have jn: "j \<le> nworks w i"
      and fr: "\<forall>j'. (workerpc s i j' = W_unborn) = (j \<le> j')"
      by simp_all
    show ?thesis
    proof (cases "j < length (assignments w i)")
      case True
      with L_spawn st have s': "s' = s\<lparr>wg2 := (wg2 s)(i := wg2 s i + 1),
                        workerpc := (workerpc s)(i := (workerpc s i)(j := W_check)),
                        listerpc := (listerpc s)(i := L_spawn (Suc j))\<rparr>"
        by (simp add: step_lister_def)
      have lt: "j < nworks w i" using True by (simp add: nworks_def)
      from fr have u: "workerpc s i j = W_unborn" by simp
      have n: "listerpc s i \<noteq> L_unborn" "listerpc s i \<noteq> L_done" using L_spawn by simp_all
      have fr': "\<forall>j'. (((workerpc s i)(j := W_check)) j' = W_unborn) = (Suc j \<le> j')"
        using fr by (rule frontier_step) simp
      have "inv_main w s'" using main_ok_upd [OF m n(1), of "L_spawn (Suc j)"]
        by (simp add: inv_main_def s')
      moreover have "inv_wg w s'"
        using invD(2) [OF i] alive_listers_same [of "L_spawn (Suc j)" "listerpc s" i w] L_spawn
        by (simp add: inv_wg_def s')
      moreover have "inv_wg2 w s'"
        using invD(3) [OF i] alive_workers_upd [OF lt, of "workerpc s i" W_check] u
        by (simp add: inv_wg2_def s')
      moreover have "inv_lister w s'"
      proof -
        have "lister_ok w i (L_spawn (Suc j)) ((workerpc s i)(j := W_check))"
          using lt fr' by simp
        from inv_lister_upd [OF invD(4) [OF i] this] show ?thesis
          by (rule inv_lister_frame) (simp_all add: s')
      qed
      moreover have "inv_closer w s'"
        using invD(5) [OF i] inv_closer_early [OF i n] by (simp add: inv_closer_def s')
      moreover have "inv_exit w s'"
        by (rule inv_exit_frame [OF invD(6) [OF i]]) (simp_all add: s')
      moreover have "inv_out w s'"
      proof -
        have "sent_by w i ((workerpc s i)(j := W_check)) = sent_by w i (workerpc s i)"
          by (rule sent_by_same) (simp add: u wout_def)
        then have "sent_total w ((workerpc s)(i := (workerpc s i)(j := W_check)))
                     = sent_total w (workerpc s)"
          by (rule sent_total_same)
        with invD(7) [OF i] show ?thesis by (simp add: inv_out_def s')
      qed
      ultimately show ?thesis by (rule invI)
    next
      case False
      with L_spawn st have s': "s' = s\<lparr>listerpc := (listerpc s)(i := L_wait)\<rparr>"
        by (simp add: step_lister_def)
      from False jn have "j = nworks w i" by (simp add: nworks_def)
      with fr have "lister_ok w i L_wait (workerpc s i)" by simp
      with L_spawn show ?thesis unfolding s' by (intro move) simp_all
    qed
  next
    case L_wait
    with st have z: "wg2 s i = 0" and s': "s' = s\<lparr>listerpc := (listerpc s)(i := L_ret)\<rparr>"
      by (simp_all add: step_lister_def split: if_splits)
    from z invD(3) [OF i] have a0: "alive_workers w i (workerpc s i) = 0"
      by (simp add: inv_wg2_def)
    from lo L_wait have fr: "\<forall>j. (workerpc s i j = W_unborn) = (nworks w i \<le> j)" by simp
    have "\<forall>j. workerpc s i j = (if j < nworks w i then W_done else W_unborn)"
    proof (intro allI)
      fix j
      show "workerpc s i j = (if j < nworks w i then W_done else W_unborn)"
      proof (cases "j < nworks w i")
        case True
        have "walive (workerpc s i j) = 0" using a0 True by (rule alive_workers_zero)
        moreover have "workerpc s i j \<noteq> W_unborn" using fr True by simp
        ultimately show ?thesis using True by (cases "workerpc s i j") simp_all
      next
        case False
        with fr show ?thesis by simp
      qed
    qed
    then have "lister_ok w i L_ret (workerpc s i)" by simp
    with L_wait show ?thesis unfolding s' by (intro move) simp_all
  next
    case L_ret
    have n: "listerpc s i \<noteq> L_unborn" "listerpc s i \<noteq> L_done" using L_ret by simp_all
    have lt: "i < ncourses w" using m n(1) by (rule main_ok_lt)
    have "0 < alive_listers w (listerpc s)"
      using lt by (rule alive_listers_pos) (simp add: L_ret)
    then have p: "wg s \<noteq> 0" using invD(2) [OF i] by (simp add: inv_wg_def)
    with L_ret st have s': "s' = s\<lparr>wg := wg s - 1, listerpc := (listerpc s)(i := L_done)\<rparr>"
      by (simp add: step_lister_def)
    have "inv_main w s'" using main_ok_upd [OF m n(1), of L_done]
      by (simp add: inv_main_def s')
    moreover have "inv_wg w s'"
      using invD(2) [OF i] alive_listers_upd [OF lt, of "listerpc s" L_done] L_ret
      by (simp add: inv_wg_def s')
    moreover have "inv_wg2 w s'"
      by (rule inv_wg2_frame [OF invD(3) [OF i]]) (simp_all add: s')
    moreover have "inv_lister w s'"
    proof -
      have "lister_ok w i L_done (workerpc s i)" using lo L_ret by simp
      from inv_lister_upd [OF invD(4) [OF i] this] show ?thesis
        by (rule inv_lister_frame) (simp_all add: s')
    qed
    moreover have "inv_closer w s'"
      using invD(5) [OF i] inv_closer_early [OF i n] by (simp add: inv_closer_def s')
    moreover have "inv_exit w s'"
      by (rule inv_exit_frame [OF invD(6) [OF i]]) (simp_all add: s')
    moreover have "inv_out w s'"
      by (rule inv_out_frame [OF invD(7) [OF i]]) (simp_all add: s')
    ultimately show ?thesis by (rule invI)
  next
    case L_done
    with st show ?thesis by (simp add: step_lister_def)
  qed
qed


lemma lister_ok_worker:
  assumes "lister_ok w i pc row" "row j \<noteq> W_unborn" "row j \<noteq> W_done"
  shows "j < nworks w i" "pc \<noteq> L_unborn" "pc \<noteq> L_done" "pc \<noteq> L_list" "pc \<noteq> L_ret"
    "pc \<noteq> L_fatal err"
  using assms by (cases pc; auto simp: not_le [symmetric] split: if_splits)+

lemma lister_ok_upd:
  assumes "lister_ok w i pc row" "row j \<noteq> W_unborn" "row j \<noteq> W_done" "v \<noteq> W_unborn"
  shows "lister_ok w i pc (row(j := v))"
proof (cases pc)
  case (L_spawn j0)
  with assms(1) have fr: "j0 \<le> nworks w i" "\<forall>j'. (row j' = W_unborn) = (j0 \<le> j')" by simp_all
  have "\<forall>j'. ((row(j := v)) j' = W_unborn) = (j0 \<le> j')"
    using fr(2) assms(2,4) by (metis fun_upd_apply)
  with fr(1) L_spawn show ?thesis by simp
next
  case L_wait
  with assms(1) have fr: "\<forall>j'. (row j' = W_unborn) = (nworks w i \<le> j')" by simp
  have "\<forall>j'. ((row(j := v)) j' = W_unborn) = (nworks w i \<le> j')"
    using fr assms(2,4) by (metis fun_upd_apply)
  with L_wait show ?thesis by simp
qed (use lister_ok_worker [OF assms(1-3)] in simp_all)

lemma inv_step_worker:
  assumes i: "invariant w s" and st: "step_worker w s i j = Some s'" and ex: "exit_status s = None"
  shows "invariant w s'"
proof -
  have m: "main_ok w (mainpc s) (listerpc s) (closerpc s)"
    using invD(1) [OF i] by (simp add: inv_main_def)
  have lo: "lister_ok w i (listerpc s i) (workerpc s i)"
    using invD(4) [OF i] by (simp add: inv_lister_def)
  have nd: "mainpc s \<noteq> M_done" using invD(6) [OF i] ex by (simp add: inv_exit_def)
  have vis: "workerpc s i j = W_send \<Longrightarrow> visible w i j"
    using invD(7) [OF i] by (simp add: inv_out_def)
  have tot: "mset (stdout s) + holding (mainpc s) = sent_total w (workerpc s)"
    using invD(7) [OF i] by (simp add: inv_out_def)
  text \<open>The worker is running: its lister is alive and the channel is open.\<close>
  have running: "j < nworks w i" "i < ncourses w" "\<not> ch_closed s"
    if a: "workerpc s i j \<noteq> W_unborn" "workerpc s i j \<noteq> W_done"
  proof -
    show "j < nworks w i" using lo a by (rule lister_ok_worker)
    have n: "listerpc s i \<noteq> L_unborn" "listerpc s i \<noteq> L_done"
      using lister_ok_worker(2,3) [OF lo a] by simp_all
    show "i < ncourses w" using m n(1) by (rule main_ok_lt)
    show "\<not> ch_closed s" using i n by (rule inv_closer_early)
  qed
  text \<open>A step that only changes the state of this worker.\<close>
  have move: "invariant w (s\<lparr>workerpc := (workerpc s)(i := (workerpc s i)(j := v))\<rparr>)"
    if a: "workerpc s i j \<noteq> W_unborn" "workerpc s i j \<noteq> W_done" "v \<noteq> W_unborn"
      and al: "walive v = walive (workerpc s i j)"
      and out: "wout w i j v = wout w i j (workerpc s i j)"
      and sd: "v = W_send \<Longrightarrow> visible w i j"
    for v
  proof -
    let ?s = "s\<lparr>workerpc := (workerpc s)(i := (workerpc s i)(j := v))\<rparr>"
    have "inv_main w ?s"
      by (rule inv_main_frame [OF invD(1) [OF i]]) simp_all
    moreover have "inv_wg w ?s"
      by (rule inv_wg_frame [OF invD(2) [OF i]]) simp_all
    moreover have "inv_wg2 w ?s"
      using invD(3) [OF i] alive_workers_same [of v "workerpc s i" j w i] al
      by (simp add: inv_wg2_def)
    moreover have "inv_lister w ?s"
      using inv_lister_upd [OF invD(4) [OF i] lister_ok_upd [OF lo a]] by simp
    moreover have "inv_closer w ?s"
      by (rule inv_closer_frame [OF invD(5) [OF i]]) simp_all
    moreover have "inv_exit w ?s"
      by (rule inv_exit_frame [OF invD(6) [OF i]]) simp_all
    moreover have "inv_out w ?s"
    proof -
      have "sent_total w ((workerpc s)(i := (workerpc s i)(j := v))) = sent_total w (workerpc s)"
        using sent_by_same [of w i j v "workerpc s i"] out
        by (intro sent_total_same) simp
      moreover have "\<forall>i' j'. ((workerpc s)(i := (workerpc s i)(j := v))) i' j' = W_send
                       \<longrightarrow> visible w i' j'"
        using invD(7) [OF i] sd by (auto simp: inv_out_def)
      ultimately show ?thesis using tot by (simp add: inv_out_def)
    qed
    ultimately show ?thesis by (rule invI)
  qed
  show ?thesis
  proof (cases "workerpc s i j")
    case W_unborn
    with st show ?thesis by (simp add: step_worker_def)
  next
    case W_check
    show ?thesis
    proof (cases "visible w i j")
      case True
      with W_check st have s': "s' = s\<lparr>workerpc := (workerpc s)(i := (workerpc s i)(j := W_send))\<rparr>"
        by (simp add: step_worker_def)
      show ?thesis unfolding s' using W_check True by (intro move) (simp_all add: wout_def)
    next
      case False
      with W_check st have s': "s' = s\<lparr>workerpc := (workerpc s)(i := (workerpc s i)(j := W_ret))\<rparr>"
        by (simp add: step_worker_def)
      show ?thesis unfolding s' using W_check False by (intro move) (simp_all add: wout_def)
    qed
  next
    case W_send
    have r: "j < nworks w i" "i < ncourses w" "\<not> ch_closed s"
      using running W_send by simp_all
    from W_send st r(3) have mr: "mainpc s = M_recv"
      by (simp add: step_worker_def split: mpc.splits)
    with W_send st r(3) have s': "s' = s\<lparr>mainpc := M_print (assignments w i ! j),
                             workerpc := (workerpc s)(i := (workerpc s i)(j := W_ret))\<rparr>"
      by (simp add: step_worker_def)
    have v: "visible w i j" using vis W_send by simp
    have a: "workerpc s i j \<noteq> W_unborn" "workerpc s i j \<noteq> W_done" using W_send by simp_all
    have "inv_main w s'" using m mr by (simp add: inv_main_def s')
    moreover have "inv_wg w s'"
      by (rule inv_wg_frame [OF invD(2) [OF i]]) (simp_all add: s')
    moreover have "inv_wg2 w s'"
      using invD(3) [OF i] alive_workers_same [of W_ret "workerpc s i" j w i] W_send
      by (simp add: inv_wg2_def s')
    moreover from inv_lister_upd [OF invD(4) [OF i] lister_ok_upd [OF lo a, of W_ret]]
    have "inv_lister w s'"
      by (rule inv_lister_frame) (simp_all add: s')
    moreover have "inv_closer w s'"
      by (rule inv_closer_frame [OF invD(5) [OF i]]) (simp_all add: s')
    moreover have "inv_exit w s'" using invD(6) [OF i] mr
      by (auto simp: inv_exit_def s')
    moreover have "inv_out w s'"
    proof -
      have "sent_by w i ((workerpc s i)(j := W_ret)) + wout w i j (workerpc s i j)
              = sent_by w i (workerpc s i) + wout w i j W_ret"
        using r(1) by (rule sent_by_upd)
      then have sb: "sent_by w i ((workerpc s i)(j := W_ret))
              = sent_by w i (workerpc s i) + {#line_of (assignments w i ! j)#}"
        using v W_send by (simp add: wout_def)
      have "sent_total w ((workerpc s)(i := (workerpc s i)(j := W_ret))) + sent_by w i (workerpc s i)
              = sent_total w (workerpc s) + sent_by w i ((workerpc s i)(j := W_ret))"
        using r(2) by (rule sent_total_upd)
      with sb have "sent_total w ((workerpc s)(i := (workerpc s i)(j := W_ret)))
              = sent_total w (workerpc s) + {#line_of (assignments w i ! j)#}"
        by simp
      moreover have "\<forall>i' j'. ((workerpc s)(i := (workerpc s i)(j := W_ret))) i' j' = W_send
                       \<longrightarrow> visible w i' j'"
        using invD(7) [OF i] by (auto simp: inv_out_def)
      ultimately show ?thesis using tot mr by (simp add: inv_out_def s')
    qed
    ultimately show ?thesis by (rule invI)
  next
    case W_ret
    have r: "j < nworks w i" "i < ncourses w" "\<not> ch_closed s"
      using running W_ret by simp_all
    have "0 < alive_workers w i (workerpc s i)"
      using r(1) by (rule alive_workers_pos) (simp add: W_ret)
    then have p: "wg2 s i \<noteq> 0" using invD(3) [OF i] by (simp add: inv_wg2_def)
    with W_ret st have s': "s' = s\<lparr>wg2 := (wg2 s)(i := wg2 s i - 1),
                        workerpc := (workerpc s)(i := (workerpc s i)(j := W_done))\<rparr>"
      by (simp add: step_worker_def)
    have a: "workerpc s i j \<noteq> W_unborn" "workerpc s i j \<noteq> W_done" using W_ret by simp_all
    have "inv_main w s'"
      by (rule inv_main_frame [OF invD(1) [OF i]]) (simp_all add: s')
    moreover have "inv_wg w s'"
      by (rule inv_wg_frame [OF invD(2) [OF i]]) (simp_all add: s')
    moreover have "inv_wg2 w s'"
      using invD(3) [OF i] alive_workers_upd [OF r(1), of "workerpc s i" W_done] W_ret
      by (simp add: inv_wg2_def s')
    moreover from inv_lister_upd [OF invD(4) [OF i] lister_ok_upd [OF lo a, of W_done]]
    have "inv_lister w s'"
      by (rule inv_lister_frame) (simp_all add: s')
    moreover have "inv_closer w s'"
      by (rule inv_closer_frame [OF invD(5) [OF i]]) (simp_all add: s')
    moreover have "inv_exit w s'"
      by (rule inv_exit_frame [OF invD(6) [OF i]]) (simp_all add: s')
    moreover have "inv_out w s'"
    proof -
      have "sent_total w ((workerpc s)(i := (workerpc s i)(j := W_done))) = sent_total w (workerpc s)"
        using sent_by_same [of w i j W_done "workerpc s i"] W_ret
        by (intro sent_total_same) (simp add: wout_def)
      moreover have "\<forall>i' j'. ((workerpc s)(i := (workerpc s i)(j := W_done))) i' j' = W_send
                       \<longrightarrow> visible w i' j'"
        using invD(7) [OF i] by (auto simp: inv_out_def)
      ultimately show ?thesis using tot by (simp add: inv_out_def s')
    qed
    ultimately show ?thesis by (rule invI)
  next
    case W_done
    with st show ?thesis by (simp add: step_worker_def)
  qed
qed


lemma inv_step:
  assumes "invariant w s" "step w s t = Some s'"
  shows "invariant w s'"
proof -
  from assms(2) have ex: "exit_status s = None"
    by (simp add: step_def split: if_splits)
  show ?thesis
  proof (cases t)
    case Main
    with assms(2) ex have "step_main w s = Some s'" by (simp add: step_def)
    with assms(1) show ?thesis by (rule inv_step_main)
  next
    case Closer
    with assms(2) ex have "step_closer s = Some s'" by (simp add: step_def)
    with assms(1) show ?thesis by (rule inv_step_closer)
  next
    case (Lister i)
    with assms(2) ex have "step_lister w s i = Some s'" by (simp add: step_def)
    with assms(1) show ?thesis using ex by (rule inv_step_lister)
  next
    case (Worker i j)
    with assms(2) ex have "step_worker w s i j = Some s'" by (simp add: step_def)
    with assms(1) show ?thesis using ex by (rule inv_step_worker)
  qed
qed

lemma inv_run: "invariant w s \<Longrightarrow> invariant w (run w s ts)"
proof (induction ts arbitrary: s)
  case Nil
  then show ?case by simp
next
  case (Cons t ts)
  show ?case
  proof (cases "step w s t")
    case None
    with Cons show ?thesis by simp
  next
    case (Some s')
    from Cons.prems Some have "invariant w s'" by (rule inv_step)
    with Some Cons.IH show ?thesis by simp
  qed
qed

lemma inv_reachable: "invariant w (run w init ts)"
  using inv_init by (rule inv_run)

subsection \<open>What the invariant gives\<close>

lemma closed_all_done:
  assumes i: "invariant w s" and c: "ch_closed s"
  shows "closerpc s = K_done"
    and "i < ncourses w \<Longrightarrow> listerpc s i = L_done"
    and "i < ncourses w \<Longrightarrow> j < nworks w i \<Longrightarrow> workerpc s i j = W_done"
proof -
  show k: "closerpc s = K_done" using invD(5) [OF i] c by (simp add: inv_closer_def)
  show l: "listerpc s i = L_done" if "i < ncourses w"
    using invD(5) [OF i] k that by (simp add: inv_closer_def)
  show "workerpc s i j = W_done" if "i < ncourses w" "j < nworks w i"
  proof -
    have "lister_ok w i (listerpc s i) (workerpc s i)"
      using invD(4) [OF i] by (simp add: inv_lister_def)
    with l [OF that(1)] that(2) show ?thesis by simp
  qed
qed

lemma sent_total_all_done:
  assumes "\<And>i j. i < ncourses w \<Longrightarrow> j < nworks w i \<Longrightarrow> wp i j = W_done"
  shows "sent_total w wp = visible_lines w"
  unfolding sent_total_def sent_by_def visible_lines_def
  by (intro sum.cong refl) (simp add: assms wout_def)

lemma normal_exit_output:
  assumes i: "invariant w s" and e: "exit_status s = Some 0"
  shows "ch_closed s" and "mset (stdout s) = visible_lines w"
proof -
  from invD(6) [OF i] e have d: "mainpc s = M_done" and c: "ch_closed s"
    by (simp_all add: inv_exit_def)
  show "ch_closed s" by (rule c)
  have "sent_total w (workerpc s) = visible_lines w"
    by (rule sent_total_all_done) (rule closed_all_done(3) [OF i c])
  with invD(7) [OF i] d show "mset (stdout s) = visible_lines w"
    by (simp add: inv_out_def)
qed

lemma lalive_01: "lalive pc = 0 \<or> lalive pc = 1"
  by (cases pc) simp_all

lemma walive_01: "walive pc = 0 \<or> walive pc = 1"
  by (cases pc) simp_all

lemma alive_listers_ex:
  assumes "0 < alive_listers w f"
  shows "\<exists>i<ncourses w. lalive (f i) = 1"
proof (rule ccontr)
  assume "\<not> (\<exists>i<ncourses w. lalive (f i) = 1)"
  then have "\<forall>i<ncourses w. lalive (f i) = 0"
    using lalive_01 by blast
  then have "alive_listers w f = 0" by (simp add: alive_listers_def)
  with assms show False by simp
qed

lemma alive_workers_ex:
  assumes "0 < alive_workers w i row"
  shows "\<exists>j<nworks w i. walive (row j) = 1"
proof (rule ccontr)
  assume "\<not> (\<exists>j<nworks w i. walive (row j) = 1)"
  then have "\<forall>j<nworks w i. walive (row j) = 0"
    using walive_01 by blast
  then have "alive_workers w i row = 0" by (simp add: alive_workers_def)
  with assms show False by simp
qed

lemma progress:
  assumes i: "invariant w s" and ex: "exit_status s = None"
  shows "\<exists>t. step w s t \<noteq> None"
proof (cases "mainpc s")
  case (M_spawn k)
  then have "step w s Main \<noteq> None" using ex by (simp add: step_def step_main_def)
  then show ?thesis ..
next
  case (M_print c)
  then have "step w s Main \<noteq> None" using ex by (simp add: step_def step_main_def)
  then show ?thesis ..
next
  case M_done
  with invD(6) [OF i] ex show ?thesis by (simp add: inv_exit_def)
next
  case M_recv
  show ?thesis
  proof (cases "ch_closed s")
    case True
    with M_recv have "step w s Main \<noteq> None" using ex by (simp add: step_def step_main_def)
    then show ?thesis ..
  next
    case False
    from invD(1) [OF i] M_recv have nu: "closerpc s \<noteq> K_unborn" by (simp add: inv_main_def)
    from invD(5) [OF i] False have nk: "closerpc s \<noteq> K_done" by (simp add: inv_closer_def)
    show ?thesis
    proof (cases "closerpc s = K_close \<or> wg s = 0")
      case True
      with nu nk have "step w s Closer \<noteq> None" using ex
        by (cases "closerpc s") (auto simp: step_def step_closer_def)
      then show ?thesis ..
    next
      case nz: False
      then have "0 < alive_listers w (listerpc s)" using invD(2) [OF i] by (simp add: inv_wg_def)
      then obtain l where l: "l < ncourses w" "lalive (listerpc s l) = 1"
        using alive_listers_ex by blast
      show ?thesis
      proof (cases "listerpc s l = L_wait \<and> wg2 s l \<noteq> 0")
        case False
        with l(2) have "step w s (Lister l) \<noteq> None" using ex
          by (cases "listerpc s l")
            (auto simp: step_def step_lister_def split: sum.splits)
        then show ?thesis ..
      next
        case True
        then have "0 < alive_workers w l (workerpc s l)"
          using invD(3) [OF i] by (simp add: inv_wg2_def)
        then obtain j where j: "j < nworks w l" "walive (workerpc s l j) = 1"
          using alive_workers_ex by blast
        with M_recv \<open>\<not> ch_closed s\<close> have "step w s (Worker l j) \<noteq> None" using ex
          by (cases "workerpc s l j") (auto simp: step_def step_worker_def)
        then show ?thesis ..
      qed
    qed
  qed
qed


subsection \<open>Every step uses up one of the steps left\<close>

lemma lister_steps_upd:
  "k < ncourses w \<Longrightarrow> lister_steps w (f(k := v)) + lpot (f k) = lister_steps w f + lpot v"
  unfolding lister_steps_def by (rule sum_upd [where F = "\<lambda>i. lpot"])

lemma row_steps_upd:
  "j < nworks w i \<Longrightarrow> row_steps w i (row(j := v)) + wpot (row j) = row_steps w i row + wpot v"
  unfolding row_steps_def by (rule sum_upd [where F = "\<lambda>i. wpot"])

lemma worker_steps_upd:
  assumes "i < ncourses w" "j < nworks w i"
  shows "worker_steps w (wp(i := (wp i)(j := v))) + wpot (wp i j) = worker_steps w wp + wpot v"
proof -
  have "worker_steps w (wp(i := (wp i)(j := v))) + row_steps w i (wp i)
          = worker_steps w wp + row_steps w i ((wp i)(j := v))"
    unfolding worker_steps_def using assms(1) by (rule sum_upd [where F = "row_steps w"])
  moreover have "row_steps w i ((wp i)(j := v)) + wpot (wp i j) = row_steps w i (wp i) + wpot v"
    using assms(2) by (rule row_steps_upd)
  ultimately show ?thesis by linarith
qed

lemma steps_main:
  assumes i: "invariant w s" and st: "step_main w s = Some s'" and ex: "exit_status s = None"
  shows "steps_left w s' < steps_left w s"
proof (cases "mainpc s")
  case (M_spawn k)
  from invD(1) [OF i] M_spawn have fr: "\<forall>i. (listerpc s i = L_unborn) = (k \<le> i)"
    and cl: "closerpc s = K_unborn"
    by (simp_all add: inv_main_def)
  show ?thesis
  proof (cases "k < length (w_courseIds w)")
    case True
    with M_spawn st have s': "s' = s\<lparr>wg := wg s + 1, listerpc := (listerpc s)(k := L_list),
                        mainpc := M_spawn (Suc k)\<rparr>"
      by (simp add: step_main_def)
    have kn: "k < ncourses w" using True by (simp add: ncourses_def)
    from fr have "listerpc s k = L_unborn" by simp
    with lister_steps_upd [OF kn, of "listerpc s" L_list]
    have "lister_steps w ((listerpc s)(k := L_list)) + 5 = lister_steps w (listerpc s) + 4"
      by simp
    then show ?thesis using M_spawn ex by (simp add: steps_left_def s')
  next
    case False
    with M_spawn st have s': "s' = s\<lparr>closerpc := K_wait, mainpc := M_recv\<rparr>"
      by (simp add: step_main_def)
    show ?thesis using M_spawn cl ex by (simp add: steps_left_def s')
  qed
next
  case M_recv
  with st have s': "s' = s\<lparr>mainpc := M_done, exit_status := Some 0\<rparr>"
    by (simp_all add: step_main_def split: if_splits)
  show ?thesis using M_recv ex by (simp add: steps_left_def s')
next
  case (M_print c)
  with st have s': "s' = s\<lparr>stdout := stdout s @ [line_of c], mainpc := M_recv\<rparr>"
    by (simp add: step_main_def line_of_def)
  show ?thesis using M_print ex by (simp add: steps_left_def s')
next
  case M_done
  with st show ?thesis by (simp add: step_main_def)
qed

lemma steps_closer:
  assumes st: "step_closer s = Some s'" and ex: "exit_status s = None"
  shows "steps_left w s' < steps_left w s"
  using st ex
  by (cases "closerpc s")
    (auto simp: step_closer_def steps_left_def panic_def split: if_splits)

lemma steps_lister:
  assumes i: "invariant w s" and st: "step_lister w s i = Some s'" and ex: "exit_status s = None"
  shows "steps_left w s' < steps_left w s"
proof -
  have m: "main_ok w (mainpc s) (listerpc s) (closerpc s)"
    using invD(1) [OF i] by (simp add: inv_main_def)
  have lo: "lister_ok w i (listerpc s i) (workerpc s i)"
    using invD(4) [OF i] by (simp add: inv_lister_def)
  have move: "steps_left w (s\<lparr>listerpc := (listerpc s)(i := pc)\<rparr>) < steps_left w s"
    if a: "listerpc s i \<noteq> L_unborn" "lpot pc < lpot (listerpc s i)" for pc
  proof -
    have lt: "i < ncourses w" using m a(1) by (rule main_ok_lt)
    from lister_steps_upd [OF lt, of "listerpc s" pc] a(2)
    have "lister_steps w ((listerpc s)(i := pc)) < lister_steps w (listerpc s)" by linarith
    then show ?thesis by (simp add: steps_left_def)
  qed
  show ?thesis
  proof (cases "listerpc s i")
    case L_unborn
    with st show ?thesis by (simp add: step_lister_def)
  next
    case L_list
    show ?thesis
    proof (cases "CourseWork_List (w_srv w) (w_courseIds w ! i)")
      case (Inl err)
      with L_list st have s': "s' = s\<lparr>listerpc := (listerpc s)(i := L_fatal err)\<rparr>"
        by (simp add: step_lister_def)
      show ?thesis unfolding s' using L_list by (intro move) simp_all
    next
      case (Inr r)
      with L_list st have "s' = s\<lparr>listerpc := (listerpc s)(i := L_ret)\<rparr>
          \<or> s' = s\<lparr>listerpc := (listerpc s)(i := L_spawn 0)\<rparr>"
        by (simp add: step_lister_def split: if_splits)
      then show ?thesis using move [of L_ret] move [of "L_spawn 0"] L_list by auto
    qed
  next
    case (L_fatal err)
    with st have s': "s' = s\<lparr>exit_status := Some 1\<rparr>"
      by (simp add: step_lister_def)
    show ?thesis using ex by (simp add: steps_left_def s')
  next
    case (L_spawn j)
    have n: "listerpc s i \<noteq> L_unborn" using L_spawn by simp
    have lt: "i < ncourses w" using m n by (rule main_ok_lt)
    from lo L_spawn have fr: "\<forall>j'. (workerpc s i j' = W_unborn) = (j \<le> j')" by simp
    show ?thesis
    proof (cases "j < length (assignments w i)")
      case True
      with L_spawn st have s': "s' = s\<lparr>wg2 := (wg2 s)(i := wg2 s i + 1),
                        workerpc := (workerpc s)(i := (workerpc s i)(j := W_check)),
                        listerpc := (listerpc s)(i := L_spawn (Suc j))\<rparr>"
        by (simp add: step_lister_def)
      have jl: "j < nworks w i" using True by (simp add: nworks_def)
      from fr have u: "workerpc s i j = W_unborn" by simp
      from worker_steps_upd [OF lt jl, of "workerpc s" W_check] u
      have "worker_steps w ((workerpc s)(i := (workerpc s i)(j := W_check))) < worker_steps w (workerpc s)"
        by simp
      moreover from lister_steps_upd [OF lt, of "listerpc s" "L_spawn (Suc j)"] L_spawn
      have "lister_steps w ((listerpc s)(i := L_spawn (Suc j))) = lister_steps w (listerpc s)"
        by simp
      ultimately show ?thesis by (simp add: steps_left_def s')
    next
      case False
      with L_spawn st have s': "s' = s\<lparr>listerpc := (listerpc s)(i := L_wait)\<rparr>"
        by (simp add: step_lister_def)
      show ?thesis unfolding s' using L_spawn by (intro move) simp_all
    qed
  next
    case L_wait
    with st have s': "s' = s\<lparr>listerpc := (listerpc s)(i := L_ret)\<rparr>"
      by (simp_all add: step_lister_def split: if_splits)
    show ?thesis unfolding s' using L_wait by (intro move) simp_all
  next
    case L_ret
    have n: "listerpc s i \<noteq> L_unborn" using L_ret by simp
    have lt: "i < ncourses w" using m n by (rule main_ok_lt)
    from L_ret st have "s' = panic s \<or> s' = s\<lparr>wg := wg s - 1, listerpc := (listerpc s)(i := L_done)\<rparr>"
      by (simp add: step_lister_def split: if_splits)
    then show ?thesis
    proof
      assume "s' = panic s"
      then show ?thesis using ex by (simp add: steps_left_def panic_def)
    next
      assume s': "s' = s\<lparr>wg := wg s - 1, listerpc := (listerpc s)(i := L_done)\<rparr>"
      from lister_steps_upd [OF lt, of "listerpc s" L_done] L_ret
      have "lister_steps w ((listerpc s)(i := L_done)) < lister_steps w (listerpc s)" by simp
      then show ?thesis by (simp add: steps_left_def s')
    qed
  next
    case L_done
    with st show ?thesis by (simp add: step_lister_def)
  qed
qed

lemma steps_worker:
  assumes i: "invariant w s" and st: "step_worker w s i j = Some s'" and ex: "exit_status s = None"
  shows "steps_left w s' < steps_left w s"
proof -
  have m: "main_ok w (mainpc s) (listerpc s) (closerpc s)"
    using invD(1) [OF i] by (simp add: inv_main_def)
  have lo: "lister_ok w i (listerpc s i) (workerpc s i)"
    using invD(4) [OF i] by (simp add: inv_lister_def)
  have less: "worker_steps w ((workerpc s)(i := (workerpc s i)(j := v))) + wpot (workerpc s i j)
               = worker_steps w (workerpc s) + wpot v"
    if a: "workerpc s i j \<noteq> W_unborn" "workerpc s i j \<noteq> W_done" for v
  proof -
    have jl: "j < nworks w i" using lo a by (rule lister_ok_worker)
    have "listerpc s i \<noteq> L_unborn" using lister_ok_worker(2) [OF lo a] .
    with m have "i < ncourses w" by (rule main_ok_lt)
    then show ?thesis using jl by (rule worker_steps_upd)
  qed
  show ?thesis
  proof (cases "workerpc s i j")
    case W_unborn
    with st show ?thesis by (simp add: step_worker_def)
  next
    case W_check
    with st have "s' = s\<lparr>workerpc := (workerpc s)(i := (workerpc s i)(j := W_send))\<rparr>
        \<or> s' = s\<lparr>workerpc := (workerpc s)(i := (workerpc s i)(j := W_ret))\<rparr>"
      by (simp add: step_worker_def split: if_splits)
    then show ?thesis using less [of W_send] less [of W_ret] W_check
      by (auto simp: steps_left_def)
  next
    case W_send
    from W_send st have "s' = panic s \<or> (mainpc s = M_recv \<and>
        s' = s\<lparr>mainpc := M_print (assignments w i ! j),
               workerpc := (workerpc s)(i := (workerpc s i)(j := W_ret))\<rparr>)"
      by (simp add: step_worker_def split: if_splits mpc.splits)
    then show ?thesis using less [of W_ret] W_send ex
      by (auto simp: steps_left_def panic_def)
  next
    case W_ret
    from W_ret st have "s' = panic s \<or>
        s' = s\<lparr>wg2 := (wg2 s)(i := wg2 s i - 1),
               workerpc := (workerpc s)(i := (workerpc s i)(j := W_done))\<rparr>"
      by (simp add: step_worker_def split: if_splits)
    then show ?thesis using less [of W_done] W_ret ex
      by (auto simp: steps_left_def panic_def)
  next
    case W_done
    with st show ?thesis by (simp add: step_worker_def)
  qed
qed

lemma steps_decrease:
  assumes "invariant w s" "step w s t = Some s'"
  shows "steps_left w s' < steps_left w s"
proof -
  from assms(2) have ex: "exit_status s = None"
    by (simp add: step_def split: if_splits)
  show ?thesis
  proof (cases t)
    case Main
    with assms(2) ex have "step_main w s = Some s'" by (simp add: step_def)
    with assms(1) show ?thesis using ex by (rule steps_main)
  next
    case Closer
    with assms(2) ex have "step_closer s = Some s'" by (simp add: step_def)
    then show ?thesis using ex by (rule steps_closer)
  next
    case (Lister i)
    with assms(2) ex have "step_lister w s i = Some s'" by (simp add: step_def)
    with assms(1) show ?thesis using ex by (rule steps_lister)
  next
    case (Worker i j)
    with assms(2) ex have "step_worker w s i j = Some s'" by (simp add: step_def)
    with assms(1) show ?thesis using ex by (rule steps_worker)
  qed
qed

lemma steps_bounded:
  "invariant w s \<Longrightarrow> steps_taken w s ts + steps_left w (run w s ts) \<le> steps_left w s"
proof (induction ts arbitrary: s)
  case Nil
  then show ?case by simp
next
  case (Cons t ts)
  show ?case
  proof (cases "step w s t")
    case None
    with Cons show ?thesis by simp
  next
    case (Some s')
    from Cons.prems Some have "invariant w s'" by (rule inv_step)
    then have "steps_taken w s' ts + steps_left w (run w s' ts) \<le> steps_left w s'"
      by (rule Cons.IH)
    moreover from Cons.prems Some have "steps_left w s' < steps_left w s"
      by (rule steps_decrease)
    ultimately show ?thesis using Some by simp
  qed
qed

lemma step_exited: "exit_status s \<noteq> None \<Longrightarrow> step w s t = None"
  by (simp add: step_def)

lemma run_exited: "exit_status s \<noteq> None \<Longrightarrow> run w s ts = s"
  by (induction ts) (simp_all add: step_exited)

lemma step_running: "step w s t = Some s' \<Longrightarrow> exit_status s = None"
  by (simp add: step_def split: if_splits)

subsection \<open>A lister whose listing call fails\<close>

lemma failing_lister_step:
  assumes "CourseWork_List (w_srv w) (w_courseIds w ! i) = Inl err"
    and "listerpc s i \<in> {L_unborn, L_list, L_fatal err}"
    and "step w s t = Some s'"
  shows "listerpc s' i \<in> {L_unborn, L_list, L_fatal err}"
proof (cases t)
  case Main
  with assms show ?thesis
    by (auto simp: step_def step_main_def split: if_splits mpc.splits)
next
  case Closer
  with assms show ?thesis
    by (auto simp: step_def step_closer_def panic_def split: if_splits kpc.splits)
next
  case (Lister k)
  with assms show ?thesis
    by (auto simp: step_def step_lister_def panic_def split: if_splits lpc.splits sum.splits)
next
  case (Worker k j)
  with assms show ?thesis
    by (auto simp: step_def step_worker_def panic_def split: if_splits wpc.splits mpc.splits)
qed

lemma failing_lister_run:
  assumes "CourseWork_List (w_srv w) (w_courseIds w ! i) = Inl err"
  shows "listerpc s i \<in> {L_unborn, L_list, L_fatal err} \<Longrightarrow>
         listerpc (run w s ts) i \<in> {L_unborn, L_list, L_fatal err}"
proof (induction ts arbitrary: s)
  case Nil
  then show ?case by simp
next
  case (Cons t ts)
  show ?case
  proof (cases "step w s t")
    case None
    with Cons show ?thesis by simp
  next
    case (Some s')
    from assms Cons.prems Some have "listerpc s' i \<in> {L_unborn, L_list, L_fatal err}"
      by (rule failing_lister_step)
    then have "listerpc (run w s' ts) i \<in> {L_unborn, L_list, L_fatal err}"
      by (rule Cons.IH)
    with Some show ?thesis by simp
  qed
qed

lemma failing_lister_reachable:
  assumes "CourseWork_List (w_srv w) (w_courseIds w ! i) = Inl err"
  shows "listerpc (run w init ts) i \<in> {L_unborn, L_list, L_fatal err}"
  using assms by (rule failing_lister_run) (simp add: init_def)

subsection \<open>Exit status 1 comes from a listing call that failed\<close>

lemma exit_1_step:
  assumes i: "invariant w s" and st: "step w s t = Some s'" and e: "exit_status s' = Some 1"
  shows "listing_fails w"
proof -
  have ex: "exit_status s = None" using st by (rule step_running)
  have m: "main_ok w (mainpc s) (listerpc s) (closerpc s)"
    using invD(1) [OF i] by (simp add: inv_main_def)
  show ?thesis
  proof (cases t)
    case Main
    with st e ex show ?thesis
      by (auto simp: step_def step_main_def split: if_splits mpc.splits)
  next
    case Closer
    with st e ex show ?thesis
      by (auto simp: step_def step_closer_def panic_def split: if_splits kpc.splits)
  next
    case (Lister k)
    with st ex have sl: "step_lister w s k = Some s'" by (simp add: step_def)
    then have nu: "listerpc s k \<noteq> L_unborn" by (auto simp: step_lister_def)
    have lt: "k < ncourses w" using m nu by (rule main_ok_lt)
    have lo: "lister_ok w k (listerpc s k) (workerpc s k)"
      using invD(4) [OF i] by (simp add: inv_lister_def)
    from sl e ex obtain err where "listerpc s k = L_fatal err"
      by (auto simp: step_lister_def panic_def split: if_splits lpc.splits sum.splits)
    with lo have "\<exists>err. CourseWork_List (w_srv w) (w_courseIds w ! k) = Inl err"
      by auto
    then obtain err where "CourseWork_List (w_srv w) (w_courseIds w ! k) = Inl err" ..
    moreover have "w_courseIds w ! k \<in> set (w_courseIds w)"
      using lt by (simp add: ncourses_def)
    ultimately show ?thesis unfolding listing_fails_def by (intro bexI) simp_all
  next
    case (Worker k j)
    with st e ex show ?thesis
      by (auto simp: step_def step_worker_def panic_def split: if_splits wpc.splits mpc.splits)
  qed
qed

lemma exit_1_run:
  "invariant w s \<Longrightarrow> exit_status s \<noteq> Some 1 \<Longrightarrow> exit_status (run w s ts) = Some 1 \<Longrightarrow>
   listing_fails w"
proof (induction ts arbitrary: s)
  case Nil
  then show ?case by simp
next
  case (Cons t ts)
  show ?case
  proof (cases "step w s t")
    case None
    with Cons show ?thesis by simp
  next
    case (Some s')
    from Cons.prems(1) Some have i': "invariant w s'" by (rule inv_step)
    show ?thesis
    proof (cases "exit_status s' = Some 1")
      case True
      with Cons.prems(1) Some show ?thesis by (rule exit_1_step)
    next
      case False
      with i' show ?thesis using Cons.prems(3) Some by (intro Cons.IH [of s']) simp_all
    qed
  qed
qed

lemma exit_1_reachable:
  "exit_status (run w init ts) = Some 1 \<Longrightarrow> listing_fails w"
  using inv_init by (rule exit_1_run) (simp_all add: init_def)

subsection \<open>Some goroutine can always run, to the end of the process\<close>

lemma can_finish:
  "invariant w s \<Longrightarrow> \<exists>us. exit_status (run w s us) \<noteq> None"
proof (induction "steps_left w s" arbitrary: s rule: less_induct)
  case less
  show ?case
  proof (cases "exit_status s = None")
    case False
    then have "exit_status (run w s []) \<noteq> None" by simp
    then show ?thesis ..
  next
    case True
    with less.prems obtain t where "step w s t \<noteq> None" using progress by blast
    then obtain s' where st: "step w s t = Some s'" by auto
    from less.prems st have "steps_left w s' < steps_left w s" by (rule steps_decrease)
    moreover from less.prems st have "invariant w s'" by (rule inv_step)
    ultimately obtain us where "exit_status (run w s' us) \<noteq> None"
      using less.hyps by blast
    with st have "exit_status (run w s (t # us)) \<noteq> None" by simp
    then show ?thesis ..
  qed
qed

lemma steps_left_init:
  "steps_left w init
     = 7 + 5 * length (w_courseIds w) + 5 * (\<Sum>i<length (w_courseIds w). length (assignments w i))"
  by (simp add: steps_left_def init_def lister_steps_def worker_steps_def row_steps_def
      ncourses_def nworks_def sum_distrib_left mult.commute)

subsection \<open>What is printed is a line of a visible assignment\<close>

lemma sum_subset_mono:
  fixes F G :: "nat \<Rightarrow> 'a multiset"
  shows "(\<And>i. i < n \<Longrightarrow> F i \<subseteq># G i) \<Longrightarrow> (\<Sum>i<n. F i) \<subseteq># (\<Sum>i<n. G i)"
  by (induction n) (simp_all add: subset_mset.add_mono)

lemma sent_total_visible: "sent_total w wp \<subseteq># visible_lines w"
  unfolding sent_total_def sent_by_def visible_lines_def
  by (intro sum_subset_mono) (simp add: wout_def)

lemma printed_visible:
  assumes "invariant w s"
  shows "mset (stdout s) \<subseteq># visible_lines w"
proof -
  have "mset (stdout s) \<subseteq># mset (stdout s) + holding (mainpc s)" by simp
  also have "\<dots> = sent_total w (workerpc s)"
    using invD(7) [OF assms] by (simp add: inv_out_def)
  also have "\<dots> \<subseteq># visible_lines w" by (rule sent_total_visible)
  finally show ?thesis .
qed

subsection \<open>The two models of the lister agree\<close>

lemma spawn_checks_sum:
  "fst (spawn_checks srv clks k cs)
     = (\<Sum>j<length cs. fst (check_and_send srv (clks (k + j)) (cs ! j)))"
proof (induction cs arbitrary: k)
  case Nil
  then show ?case by simp
next
  case (Cons c cs)
  then show ?case by (simp add: sum.lessThan_Suc_shift del: sum.lessThan_Suc)
qed

lemma check_and_send_visible:
  "fst (check_and_send (w_srv w) (w_clocks w i j) (assignments w i ! j))
     = (if visible w i j then {#assignments w i ! j#} else {#})"
  by (simp add: check_and_send_def visible_def split: prod.splits)

lemma lister_sends_visible:
  "fst (snd (listCourseWorkFromCourseId (w_srv w) (w_clocks w i) (w_courseIds w ! i)))
     = (\<Sum>j<nworks w i. if visible w i j then {#assignments w i ! j#} else {#})"
proof (cases "CourseWork_List (w_srv w) (w_courseIds w ! i)")
  case (Inl err)
  then show ?thesis
    by (simp add: listCourseWorkFromCourseId_def nworks_def assignments_def)
next
  case (Inr r)
  then have a: "assignments w i = r" by (simp add: assignments_def)
  have "fst (check_and_send (w_srv w) (w_clocks w i j) (r ! j))
          = (if visible w i j then {#r ! j#} else {#})" for j
    using check_and_send_visible [of w i j] by (simp add: a)
  then have "fst (spawn_checks (w_srv w) (w_clocks w i) 0 r)
          = (\<Sum>j<length r. if visible w i j then {#r ! j#} else {#})"
    by (simp add: spawn_checks_sum)
  then show ?thesis using Inr
    by (simp add: listCourseWorkFromCourseId_def nworks_def a cong: if_cong)
qed

subsection \<open>The example runs\<close>

lemma example_world_fields:
  "w_srv (example_world ids) = example_srv"
  "w_courseIds (example_world ids) = ids"
  "w_clocks (example_world ids) i j = (japan_morning, japan_morning)"
  by (simp_all add: example_world_def)

lemma example_assignments:
  "assignments (example_world [''C3'', ''C2'']) 0 = [A2, A5, A4]"
  "assignments (example_world [''C3'', ''C2'']) (Suc 0) = []"
  "assignments (example_world [''C1'', ''C9'']) 0 = [A1, A2, A3, A4]"
  "assignments (example_world [''C1'', ''C9'']) (Suc 0) = []"
  by (simp_all add: assignments_def example_world_fields example_srv_def)

lemma example_visible:
  "visible (example_world [''C3'', ''C2'']) 0 0"
  "\<not> visible (example_world [''C3'', ''C2'']) 0 (Suc 0)"
  "visible (example_world [''C3'', ''C2'']) 0 2"
  "visible (example_world [''C3'', ''C2'']) 0 (Suc (Suc 0))"
  "\<not> visible (example_world [''C1'', ''C9'']) 0 0"
  "visible (example_world [''C1'', ''C9'']) 0 (Suc 0)"
  by (simp_all add: visible_def example_assignments example_world_fields example_checks)

lemma example_lines:
  "line_of A2 = ''Report (A2) link:https://c/A2'' @ [CHR 0x0A]"
  "line_of A4 = ''Report (A4) link:https://c/A4'' @ [CHR 0x0A]"
  by (simp_all add: line_of_def Sprintf_line_def A2_def A4_def assignment_def)

lemmas step_defs = step_def step_main_def step_closer_def step_lister_def step_worker_def

lemma normal_run_state:
  "run (example_world [''C3'', ''C2'']) init normal_run =
     \<lparr>mainpc = M_done, closerpc = K_done,
      listerpc = (\<lambda>i. L_unborn)(0 := L_done, Suc 0 := L_done),
      workerpc = (\<lambda>i j. W_unborn)(0 := (\<lambda>j. W_unborn)(0 := W_done, Suc 0 := W_done, 2 := W_done)),
      wg = 0, wg2 = (\<lambda>i. 0), ch_closed = True, n_close = 1,
      stdout = [line_of A4, line_of A2], exit_status = Some 0\<rparr>"
  apply (simp add: normal_run_def step_defs init_def example_world_fields example_assignments
      example_visible example_listings line_of_def)
  apply (auto simp: fun_eq_iff)
  done


lemma run_append: "run w s (ts @ us) = run w (run w s ts) us"
  by (induction ts arbitrary: s) (simp_all split: option.splits)

lemma before_listing_state:
  "run (example_world [''C1'', ''C9'']) init before_listing =
     \<lparr>mainpc = M_recv, closerpc = K_wait,
      listerpc = (\<lambda>i. L_unborn)(0 := L_spawn 2, Suc 0 := L_list),
      workerpc = (\<lambda>i j. W_unborn)(0 := (\<lambda>j. W_unborn)(0 := W_check, Suc 0 := W_ret)),
      wg = 2, wg2 = (\<lambda>i. 0)(0 := 2), ch_closed = False, n_close = 0,
      stdout = [line_of A2], exit_status = None\<rparr>"
  apply (simp add: before_listing_def step_defs init_def example_world_fields example_assignments
      example_visible example_listings line_of_def example_srv_def)
  apply (auto simp: fun_eq_iff)
  done

lemma listing_failed_state:
  "run (example_world [''C1'', ''C9'']) init listing_failed =
     \<lparr>mainpc = M_recv, closerpc = K_wait,
      listerpc = (\<lambda>i. L_unborn)(0 := L_spawn 2, Suc 0 := L_fatal (RemoteError ''transport'')),
      workerpc = (\<lambda>i j. W_unborn)(0 := (\<lambda>j. W_unborn)(0 := W_check, Suc 0 := W_ret)),
      wg = 2, wg2 = (\<lambda>i. 0)(0 := 2), ch_closed = False, n_close = 0,
      stdout = [line_of A2], exit_status = None\<rparr>"
  by (simp add: listing_failed_def run_append before_listing_state step_defs
      example_world_fields example_listings)

lemma failing_run_state:
  "run (example_world [''C1'', ''C9'']) init failing_run =
     \<lparr>mainpc = M_recv, closerpc = K_wait,
      listerpc = (\<lambda>i. L_unborn)(0 := L_spawn 2, Suc 0 := L_fatal (RemoteError ''transport'')),
      workerpc = (\<lambda>i j. W_unborn)(0 := (\<lambda>j. W_unborn)(0 := W_check, Suc 0 := W_ret)),
      wg = 2, wg2 = (\<lambda>i. 0)(0 := 2), ch_closed = False, n_close = 0,
      stdout = [line_of A2], exit_status = Some 1\<rparr>"
  by (simp add: failing_run_def run_append listing_failed_state step_defs example_world_fields)

lemma example_visible_lines:
  "visible_lines (example_world [''C3'', ''C2'']) = {#line_of A2, line_of A4#}"
proof -
  have "{..<(2::nat)} = {0, 1}" "{..<(3::nat)} = {0, 1, 2}" by auto
  then show ?thesis
    by (simp add: visible_lines_def ncourses_def nworks_def example_world_fields
        example_assignments example_visible)
qed

lemma example_no_listing_fails: "\<not> listing_fails (example_world [''C3'', ''C2''])"
  by (simp add: listing_fails_def example_world_fields example_listings)

lemma normal_run_steps: "steps_taken (example_world [''C3'', ''C2'']) init normal_run = 25"
  by (simp add: normal_run_def step_defs init_def example_world_fields example_assignments
      example_visible example_listings)

section \<open>The claims\<close>

text \<open>
  Claim C1. The date check compares the due date with the day that \<open>Truncate\<close>
  computes, which is the calendar day in UTC, and not with the calendar date that the
  clock of the process shows. East of Greenwich the two differ every morning: at 08:00
  on November 1 in Japan it is still October 31 in UTC. An assignment that was due on
  October 31, strictly before today's date, therefore passes the date check: the filter
  consults the submission lookup and, nothing being turned in, returns true.
\<close>

theorem overdue_visible_east_of_utc:
  "DueDate A8 = Some \<lparr>Year = 2024, Month = 10, Day = 31\<rparr>
   \<and> Format_date japan_early = ''2024-11-01''
   \<and> daysSinceZero 2024 10 31 < civil_day japan_early
   \<and> Parse_date (Sprintf_date 2024 10 31) = Inr (739189 * 86400 * 1000000000)
   \<and> Truncate (instant_of japan_early) (24 * Hour) = 739189 * 86400 * 1000000000
   \<and> StudentSubmissions_List example_srv (CourseId A8) (Id_cw A8) = Inr []
   \<and> isCourseworkVisible example_srv (japan_early, japan_early) A8
       = ((True, None), [ListSubmissions ''C1'' ''A8''])"
proof -
  have p: "Parse_date (Sprintf_date 2024 10 31) = Inr (739189 * 86400 * 1000000000)"
    using Parse_Sprintf_date [of 2024 10 31] by (simp add: A8_fields day_numbers)
  have v: "isCourseworkVisible example_srv (japan_early, japan_early) A8
       = ((True, None), [ListSubmissions ''C1'' ''A8''])"
    by (simp add: isCourseworkVisible_def A8_fields p japan_early_facts Before_def)
  from p v show ?thesis
    by (simp add: A8_fields japan_early_facts day_numbers)
qed

text \<open>
  An assignment that was due yesterday, by the clock of the process, is excluded
  exactly when the time of day has reached the zone offset: in Japan from 09:00 on,
  at and west of Greenwich all day.
\<close>

lemma due_yesterday_excluded_iff:
  assumes "DueDate c = Some dd" "date_ok (Year dd) (Month dd) (Day dd)"
    and "daysSinceZero (Year dd) (Month dd) (Day dd) + 1 = civil_day (snd clk)"
  shows "(isCourseworkVisible srv clk c = ((False, None), []))
         = (zone_offset (snd clk) * 1000000000 \<le> nsec_of_day (snd clk))"
proof -
  have "(daysSinceZero (Year dd) (Month dd) (Day dd) < today (snd clk))
          = (\<not> today (snd clk) < civil_day (snd clk))"
    using assms(3) by linarith
  then show ?thesis
    using assms(1,2)
    by (auto simp: isCourseworkVisible_due today_before_civil_day split: sum.splits)
qed

text \<open>
  What the date check does exclude: a due date that parses as a date in the format
  YYYY-MM-DD and lies before the day in UTC of the clock reading the filter truncates.
  Dates are compared by their day count, which follows the order of the calendar
  (\<open>daysSinceZero_mono\<close>).
\<close>

lemma before_utc_day_excluded:
  assumes due: "DueDate c = Some dd"
    and ok: "date_ok (Year dd) (Month dd) (Day dd)"
    and before: "daysSinceZero (Year dd) (Month dd) (Day dd) < today (snd clk)"
  shows "isCourseworkVisible srv clk c = ((False, None), [])"
proof -
  have "isCourseworkVisible srv clk c =
      (if daysSinceZero (Year dd) (Month dd) (Day dd) < today (snd clk) then ((False, None), [])
       else (case StudentSubmissions_List srv (CourseId c) (Id_cw c) of
               Inl err \<Rightarrow> ((False, Some err), [ListSubmissions (CourseId c) (Id_cw c)])
             | Inr wr \<Rightarrow> ((submissions_loop wr, None), [ListSubmissions (CourseId c) (Id_cw c)])))"
    using ok by (simp add: isCourseworkVisible_due [OF due])
  with before show ?thesis by simp
qed

text \<open>
  A due date that does not print as YYYY-MM-DD never reaches the date check, overdue or
  not: December 31 of the year 999 prints as \<open>999-12-31\<close>, which \<open>time.Parse\<close>
  refuses, so the filter returns false together with the error.
\<close>

lemma overdue_year_999_parse_error:
  "DueDate A7 = Some \<lparr>Year = 999, Month = 12, Day = 31\<rparr>
   \<and> daysSinceZero 999 12 31 < today (snd (japan_morning, japan_morning))
   \<and> isCourseworkVisible example_srv (japan_morning, japan_morning) A7
       = ((False, Some (ParseError ''999-12-31'')), [])"
  by (simp add: example_fields example_checks day_numbers today_japan_morning)


text \<open>
  Claim C2. An assignment without a due date gets the civil date of the clock in the
  process's zone as its date, while the date check compares with the day that
  \<open>Truncate\<close> computes, which is the day in UTC. West of Greenwich the two differ
  every evening: at 21:00 on October 30 in New York it is already October 31 in UTC,
  so the date check excludes the assignment, which has no submission at all.
\<close>

theorem no_due_date_excluded_west_of_utc:
  "DueDate A4 = None
   \<and> StudentSubmissions_List example_srv (CourseId A4) (Id_cw A4) = Inr []
   \<and> Format_date new_york_evening = ''2024-10-30''
   \<and> Parse_date ''2024-10-30'' = Inr (739188 * 86400 * 1000000000)
   \<and> Truncate (instant_of new_york_evening) (24 * Hour) = 739189 * 86400 * 1000000000
   \<and> isCourseworkVisible example_srv (new_york_evening, new_york_evening) A4 = ((False, None), [])"
proof -
  have f: "Format_date new_york_evening = ''2024-10-30''"
    by (simp add: Format_date_def appendInt_def zero_pad_def digits_2 digits_4 digit_char_numerals digit_char_Suc_0
        new_york_evening_def)
  have p: "Parse_date (Format_date new_york_evening) = Inr (739188 * 86400 * 1000000000)"
    by (simp add: Parse_Format_date civil_ok_examples day_numbers
        new_york_evening_def [THEN arg_cong, of year] new_york_evening_def [THEN arg_cong, of month]
        new_york_evening_def [THEN arg_cong, of day])
  have t: "Truncate (instant_of new_york_evening) (24 * Hour) = 739189 * 86400 * 1000000000"
    by (simp add: Truncate_def instant_of_def new_york_evening_def daysSinceZero_def
        daysBefore_def isLeap_def Hour_def)
  have v: "isCourseworkVisible example_srv (new_york_evening, new_york_evening) A4
             = ((False, None), [])"
    by (simp add: isCourseworkVisible_def example_fields p t Before_def)
  from f p t v show ?thesis
    by (simp add: example_fields example_lookups)
qed

text \<open>
  When the two clock readings are one and the same, the date check excludes an
  assignment without a due date exactly when the time of day, moved to UTC, runs past
  midnight.
\<close>

lemma no_due_date_excluded_iff:
  assumes "DueDate c = None" "civil_ok t"
  shows "(isCourseworkVisible srv (t, t) c = ((False, None), [])
          \<and> daysSinceZero (year t) (month t) (day t) < today t)
         = (86400000000000 \<le> nsec_of_day t - zone_offset t * 1000000000)"
proof -
  let ?D = "daysSinceZero (year t) (month t) (day t)"
  let ?r = "nsec_of_day t - zone_offset t * 1000000000"
  have i: "instant_of t = ?D * 86400000000000 + ?r"
    by (simp add: instant_of_def algebra_simps)
  have "today t = ?D + ?r div 86400000000000"
    by (simp add: today_def Hour_def i)
  then have "(?D < today t) = (86400000000000 \<le> ?r)"
    using pos_imp_zdiv_pos_iff [of 86400000000000 ?r] by simp
  then show ?thesis
    using assms by (auto simp: isCourseworkVisible_no_due)
qed

text \<open>
  Claim C3. An assignment whose due date is the date that the clock of the process
  shows is due today. West of Greenwich, in the evening, the day in UTC is already
  tomorrow: at 21:00 on October 30 in New York the date check excludes an assignment
  that is due on October 30. The filter returns false without making the lookup,
  although the lookup succeeds and returns no record in state \<open>TURNED_IN\<close>.
\<close>

theorem due_today_excluded_west_of_utc:
  "DueDate A1 = Some \<lparr>Year = 2024, Month = 10, Day = 30\<rparr>
   \<and> Format_date new_york_evening = ''2024-10-30''
   \<and> daysSinceZero 2024 10 30 = civil_day new_york_evening
   \<and> StudentSubmissions_List example_srv (CourseId A1) (Id_cw A1) = Inr []
   \<and> Parse_date (Sprintf_date 2024 10 30) = Inr (739188 * 86400 * 1000000000)
   \<and> Truncate (instant_of new_york_evening) (24 * Hour) = 739189 * 86400 * 1000000000
   \<and> isCourseworkVisible example_srv (new_york_evening, new_york_evening) A1 = ((False, None), [])"
proof -
  have p: "Parse_date (Sprintf_date 2024 10 30) = Inr (739188 * 86400 * 1000000000)"
    using Parse_Sprintf_date [of 2024 10 30] by (simp add: date_ok_examples day_numbers)
  have v: "isCourseworkVisible example_srv (new_york_evening, new_york_evening) A1
             = ((False, None), [])"
    by (simp add: isCourseworkVisible_def example_fields p new_york_evening_facts Before_def)
  from p v show ?thesis
    by (simp add: example_fields example_lookups new_york_evening_facts day_numbers)
qed

text \<open>
  An assignment that is due today, by the clock of the process, is excluded exactly
  when the time of day, moved to UTC, runs past midnight: never at or east of
  Greenwich, every evening west of it.
\<close>

lemma due_today_excluded_iff:
  assumes "DueDate c = Some dd" "date_ok (Year dd) (Month dd) (Day dd)"
    and "daysSinceZero (Year dd) (Month dd) (Day dd) = civil_day (snd clk)"
  shows "(isCourseworkVisible srv clk c = ((False, None), []))
         = (86400000000000 \<le> nsec_of_day (snd clk) - zone_offset (snd clk) * 1000000000)"
  using assms
  by (auto simp: isCourseworkVisible_due today_after_civil_day split: sum.splits)

text \<open>
  Where the date check lets the assignment through (its date parses and is not before
  the day in UTC) and the submission lookup succeeds, the filter makes that one lookup
  and returns, with no error, true exactly when none of the records returned is in
  state \<open>TURNED_IN\<close>.
\<close>

lemma past_date_check_visible_iff:
  assumes due: "due_today_or_later clk c"
    and lookup: "StudentSubmissions_List srv (CourseId c) (Id_cw c) = Inr subs"
  shows "isCourseworkVisible srv clk c =
           ((\<not> (\<exists>s\<in>set subs. State s = ''TURNED_IN''), None),
            [ListSubmissions (CourseId c) (Id_cw c)])"
proof (cases "DueDate c")
  case None
  with due have "civil_ok (fst clk)"
    and "\<not> daysSinceZero (year (fst clk)) (month (fst clk)) (day (fst clk)) < today (snd clk)"
    by (simp_all add: due_today_or_later_def)
  with None lookup show ?thesis
    by (simp add: isCourseworkVisible_no_due submissions_loop_iff)
next
  case (Some dd)
  with due have "date_ok (Year dd) (Month dd) (Day dd)"
    and "\<not> daysSinceZero (Year dd) (Month dd) (Day dd) < today (snd clk)"
    by (simp_all add: due_today_or_later_def)
  with Some lookup show ?thesis
    by (simp add: isCourseworkVisible_due submissions_loop_iff)
qed

lemma due_today_or_later_examples:
  "due_today_or_later (japan_morning, japan_morning) A2"
  "due_today_or_later (japan_morning, japan_morning) A3"
  "due_today_or_later (japan_morning, japan_morning) A4"
  "due_today_or_later (japan_morning, japan_morning) A5"
  by (simp_all add: due_today_or_later_def example_fields date_ok_examples day_numbers
      today_japan_morning civil_ok_examples japan_morning_def [THEN arg_cong, of year]
      japan_morning_def [THEN arg_cong, of month] japan_morning_def [THEN arg_cong, of day])


text \<open>
  Claim C4. When the submission lookup of an assignment fails, the filter returns
  false together with the error of the lookup; the goroutine of the assignment sends
  nothing on the channel, and the assignment is not among what the lister publishes,
  so nothing is printed for it. The failure is not fatal: the lister returns, and what
  it publishes is what the goroutines of the other assignments of the course publish,
  each with its own clock readings.
\<close>

theorem lookup_failure_is_soft:
  assumes lookup: "StudentSubmissions_List srv (CourseId c) (Id_cw c) = Inl err"
    and due: "due_today_or_later (clks (length xs)) c"
    and listing: "CourseWork_List srv courseId = Inr (xs @ c # ys)"
  shows "isCourseworkVisible srv (clks (length xs)) c
           = ((False, Some err), [ListSubmissions (CourseId c) (Id_cw c)])
       \<and> fst (check_and_send srv (clks (length xs)) c) = {#}
       \<and> fst (listCourseWorkFromCourseId srv clks courseId) = Returned
       \<and> fst (snd (listCourseWorkFromCourseId srv clks courseId))
           = fst (spawn_checks srv clks 0 xs) + fst (spawn_checks srv clks (Suc (length xs)) ys)
       \<and> c \<notin># fst (snd (listCourseWorkFromCourseId srv clks courseId))"
proof -
  let ?clk = "clks (length xs)"
  have v: "isCourseworkVisible srv ?clk c
             = ((False, Some err), [ListSubmissions (CourseId c) (Id_cw c)])"
  proof (cases "DueDate c")
    case None
    with due have "civil_ok (fst ?clk)"
      and "\<not> daysSinceZero (year (fst ?clk)) (month (fst ?clk)) (day (fst ?clk)) < today (snd ?clk)"
      by (simp_all add: due_today_or_later_def)
    with None lookup show ?thesis
      by (simp add: isCourseworkVisible_no_due)
  next
    case (Some dd)
    with due have "date_ok (Year dd) (Month dd) (Day dd)"
      and "\<not> daysSinceZero (Year dd) (Month dd) (Day dd) < today (snd ?clk)"
      by (simp_all add: due_today_or_later_def)
    with Some lookup show ?thesis
      by (simp add: isCourseworkVisible_due)
  qed
  then have s: "fst (check_and_send srv ?clk c) = {#}"
    by (simp add: check_and_send_def)
  have n: "c \<notin># fst (snd (listCourseWorkFromCourseId srv clks courseId))"
    using lister_sent [of c srv clks courseId] lookup_failure_never_visible [OF lookup]
    by blast
  from v s n lister_returns(1) [OF listing] lister_skips [where clks = clks, OF listing s]
  show ?thesis by simp
qed

theorem lookup_failure_is_soft_witness:
  "StudentSubmissions_List example_srv (CourseId A5) (Id_cw A5) = Inl (RemoteError ''lookup'')
   \<and> due_today_or_later (japan_morning, japan_morning) A5
   \<and> CourseWork_List example_srv ''C3'' = Inr [A2, A5, A4]
   \<and> isCourseworkVisible example_srv (japan_morning, japan_morning) A5
       = ((False, Some (RemoteError ''lookup'')), [ListSubmissions ''C1'' ''A5''])
   \<and> fst (check_and_send example_srv (japan_morning, japan_morning) A5) = {#}
   \<and> fst (listCourseWorkFromCourseId example_srv (\<lambda>j. (japan_morning, japan_morning)) ''C3'')
       = Returned
   \<and> fst (snd (listCourseWorkFromCourseId example_srv (\<lambda>j. (japan_morning, japan_morning)) ''C3''))
       = {#A2, A4#}
   \<and> A5 \<notin># fst (snd (listCourseWorkFromCourseId example_srv
                                (\<lambda>j. (japan_morning, japan_morning)) ''C3''))"
proof -
  have l: "StudentSubmissions_List example_srv (CourseId A5) (Id_cw A5) = Inl (RemoteError ''lookup'')"
    by (simp add: example_fields example_lookups)
  have d: "due_today_or_later ((\<lambda>j. (japan_morning, japan_morning)) (length [A2])) A5"
    by (simp add: due_today_or_later_examples)
  from lookup_failure_is_soft [where clks = "\<lambda>j. (japan_morning, japan_morning)" and xs = "[A2]",
      OF l d example_listings(3)] l d example_listings(3)
  show ?thesis by (simp add: example_fields example_sends example_distinct)
qed

text \<open>
  Claim C5, as amended. When the listing call of a course fails, the lister ends in
  \<open>log.Fatalf\<close> having made that one call. In the process, the goroutine of the course
  does nothing but make the call and run \<open>log.Fatalf\<close>, which ends the process with
  status 1; from then on no goroutine runs: the call is not made again and nothing
  more is printed, whatever the goroutines of other courses were about to send and
  whatever \<open>_main\<close> had received and not printed. No visibility check of the failed
  course is ever started. No run ends with status 0; a run in which no goroutine can
  run has ended with status 1, and every run can be continued to that end. What \<open>_main\<close>
  printed for other courses before the process ended stays on standard output.
\<close>

theorem listing_failure_ends_process:
  assumes fail: "CourseWork_List (w_srv w) (w_courseIds w ! i) = Inl err"
    and i: "i < length (w_courseIds w)"
    and s: "s = run w init ts"
  shows "listCourseWorkFromCourseId (w_srv w) (w_clocks w i) (w_courseIds w ! i)
           = (Fatal err, {#}, {#ListCourseWork (w_courseIds w ! i)#})
       \<and> listerpc s i \<in> {L_unborn, L_list, L_fatal err}
       \<and> (exit_status s = None \<and> listerpc s i = L_list \<longrightarrow>
            step w s (Lister i) = Some (s\<lparr>listerpc := (listerpc s)(i := L_fatal err)\<rparr>))
       \<and> (exit_status s = None \<and> listerpc s i = L_fatal err \<longrightarrow>
            step w s (Lister i) = Some (s\<lparr>exit_status := Some 1\<rparr>))
       \<and> (exit_status s = Some 1 \<longrightarrow> (\<forall>t. step w s t = None) \<and> (\<forall>us. run w s us = s))
       \<and> (\<forall>j. workerpc s i j = W_unborn)
       \<and> exit_status s \<noteq> Some 0
       \<and> ((\<forall>t. step w s t = None) \<longrightarrow> exit_status s = Some 1)
       \<and> (\<exists>us. exit_status (run w s us) = Some 1)"
proof -
  have inv: "invariant w s" unfolding s by (rule inv_reachable)
  have pc: "listerpc s i \<in> {L_unborn, L_list, L_fatal err}"
    unfolding s using fail by (rule failing_lister_reachable)
  have a: "listCourseWorkFromCourseId (w_srv w) (w_clocks w i) (w_courseIds w ! i)
           = (Fatal err, {#}, {#ListCourseWork (w_courseIds w ! i)#})"
    using fail by (simp add: listCourseWorkFromCourseId_def)
  have b: "exit_status s = None \<and> listerpc s i = L_list \<longrightarrow>
            step w s (Lister i) = Some (s\<lparr>listerpc := (listerpc s)(i := L_fatal err)\<rparr>)"
    using fail by (simp add: step_def step_lister_def)
  have b': "exit_status s = None \<and> listerpc s i = L_fatal err \<longrightarrow>
            step w s (Lister i) = Some (s\<lparr>exit_status := Some 1\<rparr>)"
    by (simp add: step_def step_lister_def)
  have c: "exit_status s = Some 1 \<longrightarrow> (\<forall>t. step w s t = None) \<and> (\<forall>us. run w s us = s)"
    by (simp add: step_exited run_exited)
  have "lister_ok w i (listerpc s i) (workerpc s i)"
    using invD(4) [OF inv] by (simp add: inv_lister_def)
  with pc have d: "\<forall>j. workerpc s i j = W_unborn" by auto
  have not0: "exit_status t \<noteq> Some 0"
    if t: "invariant w t" "listerpc t i \<in> {L_unborn, L_list, L_fatal err}" for t
  proof
    assume "exit_status t = Some 0"
    with t(1) have "ch_closed t" by (rule normal_exit_output(1))
    with t(1) have "listerpc t i = L_done"
      using i by (intro closed_all_done(2)) (simp_all add: ncourses_def)
    with t(2) show False by simp
  qed
  have e: "exit_status s \<noteq> Some 0" using inv pc by (rule not0)
  have status: "exit_status t = None \<or> exit_status t = Some 0 \<or> exit_status t = Some 1"
    if "invariant w t" for t
    using invD(6) [OF that] by (simp add: inv_exit_def)
  have f: "(\<forall>t. step w s t = None) \<longrightarrow> exit_status s = Some 1"
    using progress [OF inv] status [OF inv] e by auto
  obtain us where us: "exit_status (run w s us) \<noteq> None"
    using can_finish [OF inv] by blast
  have "invariant w (run w s us)" using inv by (rule inv_run)
  moreover have "listerpc (run w s us) i \<in> {L_unborn, L_list, L_fatal err}"
    using fail pc by (rule failing_lister_run)
  ultimately have "exit_status (run w s us) = Some 1"
    using not0 [of "run w s us"] status [of "run w s us"] us by auto
  then have g: "\<exists>us. exit_status (run w s us) = Some 1" ..
  from a pc b b' c d e f g show ?thesis by blast
qed

theorem listing_failure_ends_process_witness:
  "CourseWork_List (w_srv (example_world [''C1'', ''C9''])) (w_courseIds (example_world [''C1'', ''C9'']) ! 1)
     = Inl (RemoteError ''transport'')
   \<and> 1 < length (w_courseIds (example_world [''C1'', ''C9'']))
   \<and> exit_status (run (example_world [''C1'', ''C9'']) init before_listing) = None
   \<and> listerpc (run (example_world [''C1'', ''C9'']) init before_listing) 1 = L_list
   \<and> step (example_world [''C1'', ''C9'']) (run (example_world [''C1'', ''C9'']) init before_listing)
        (Lister 1)
       = Some (run (example_world [''C1'', ''C9'']) init listing_failed)
   \<and> exit_status (run (example_world [''C1'', ''C9'']) init listing_failed) = None
   \<and> listerpc (run (example_world [''C1'', ''C9'']) init listing_failed) 1
       = L_fatal (RemoteError ''transport'')
   \<and> step (example_world [''C1'', ''C9''])
        (run (example_world [''C1'', ''C9'']) init listing_failed) (Lister 1)
       = Some (run (example_world [''C1'', ''C9'']) init failing_run)
   \<and> exit_status (run (example_world [''C1'', ''C9'']) init failing_run) = Some 1
   \<and> (\<forall>t. step (example_world [''C1'', ''C9''])
              (run (example_world [''C1'', ''C9'']) init failing_run) t = None)
   \<and> run (example_world [''C1'', ''C9'']) (run (example_world [''C1'', ''C9'']) init failing_run)
        [Main, Worker 0 0, Lister 0, Closer]
       = run (example_world [''C1'', ''C9'']) init failing_run
   \<and> workerpc (run (example_world [''C1'', ''C9'']) init failing_run) 1 0 = W_unborn"
proof -
  let ?w = "example_world [''C1'', ''C9'']"
  have fail: "CourseWork_List (w_srv ?w) (w_courseIds ?w ! 1) = Inl (RemoteError ''transport'')"
    by (simp add: example_world_fields example_listings)
  have i: "1 < length (w_courseIds ?w)" by (simp add: example_world_fields)
  from listing_failure_ends_process [OF fail i refl, of before_listing]
    listing_failure_ends_process [OF fail i refl, of listing_failed]
    listing_failure_ends_process [OF fail i refl, of failing_run]
    fail i
  show ?thesis
    by (simp add: failing_run_state before_listing_state listing_failed_state)
qed

text \<open>
  The claim as it was written says that the process terminates with no partial
  results. It can terminate after a part of the results has been printed: in
  \<open>failing_run\<close> the line of the assignment \<open>A2\<close> of course \<open>C1\<close> is on standard output
  when the listing call of course \<open>C9\<close> fails and \<open>log.Fatalf\<close> ends the process with
  status 1.
\<close>

theorem listing_failure_after_output_counterexample:
  "CourseWork_List example_srv ''C9'' = Inl (RemoteError ''transport'')
   \<and> exit_status (run (example_world [''C1'', ''C9'']) init failing_run) = Some 1
   \<and> stdout (run (example_world [''C1'', ''C9'']) init failing_run)
       = [''Report (A2) link:https://c/A2'' @ [CHR 0x0A]]"
  by (simp add: failing_run_state example_lines example_listings)


text \<open>
  Claim C6. When the listing call of a course succeeds with no assignment, the lister
  returns at once: it started no goroutine, sent nothing on the channel and made no
  call but the listing.
\<close>

theorem empty_course_publishes_nothing:
  assumes "CourseWork_List srv courseId = Inr []"
  shows "listCourseWorkFromCourseId srv clks courseId
           = (Returned, {#}, {#ListCourseWork courseId#})"
proof -
  have "length ([] :: CourseWork list) \<le> 0" by simp
  with assms show ?thesis
    by (simp add: listCourseWorkFromCourseId_def)
qed

theorem empty_course_publishes_nothing_witness:
  "CourseWork_List example_srv ''C2'' = Inr []
   \<and> listCourseWorkFromCourseId example_srv (\<lambda>j. (japan_morning, japan_morning)) ''C2''
       = (Returned, {#}, {#ListCourseWork ''C2''#})"
  using empty_course_publishes_nothing [OF example_listings(2)] example_listings(2)
  by simp

text \<open>
  Claim C7. For the assignments it receives from the channel, in the order it receives
  them, the aggregator writes one text each and nothing else: the title, the
  identifier in parentheses, \<open>link:\<close> and the link, and a newline.
\<close>

theorem aggregator_prints_one_line_each:
  "main_range_loop out received =
     out @ map (\<lambda>c. Title c @ '' ('' @ Id_cw c @ '') link:'' @ AlternateLink c @ [CHR 0x0A])
            received
   \<and> length (main_range_loop out received) = length out + length received"
proof (induction received arbitrary: out)
  case Nil
  show ?case by simp
next
  case (Cons c cs)
  from Cons.IH [of "out @ [Sprintf_line (Title c) (Id_cw c) (AlternateLink c)]"]
  show ?case by (simp add: Sprintf_line_def)
qed

text \<open>
  Claim C8. Whatever the scheduler does: at every moment what has been printed are
  lines of visible assignments, none more often than there are visible assignments
  with that line; and a run that has ended normally, with status 0, has printed
  exactly the lines of the visible assignments, none lost and none twice. \<open>_main\<close>
  returns only on a closed channel. \<open>close(ch)\<close> is executed once, never twice, and
  only after the goroutine of every course has finished; the goroutine of a course is
  past its \<open>wg2.Wait()\<close> only when the goroutine of every one of its assignments has
  finished. The process never panics (status 2): no send on a closed channel, no second
  \<open>close\<close>, no counter below zero. While the process has not ended some goroutine can
  run, and the number of steps of a run is bounded, so no goroutine waits forever. When
  no listing call fails, no run ends with status 1 and every run can be continued to
  the normal end.
\<close>

theorem each_visible_assignment_printed_once:
  assumes s: "s = run w init ts"
  shows "mset (stdout s) \<subseteq># visible_lines w
       \<and> (exit_status s = Some 0 \<longrightarrow>
            mset (stdout s) = visible_lines w \<and> mainpc s = M_done \<and> ch_closed s)
       \<and> (mainpc s = M_done \<longrightarrow> ch_closed s)
       \<and> n_close s = (if ch_closed s then 1 else 0)
       \<and> (ch_closed s \<longrightarrow> (\<forall>i<length (w_courseIds w). listerpc s i = L_done))
       \<and> (\<forall>i. listerpc s i = L_ret \<or> listerpc s i = L_done \<longrightarrow>
              (\<forall>j<length (assignments w i). workerpc s i j = W_done))
       \<and> (exit_status s = None \<or> exit_status s = Some 0 \<or> exit_status s = Some 1)
       \<and> (exit_status s = None \<longrightarrow> (\<exists>t. step w s t \<noteq> None))
       \<and> steps_taken w init ts
            \<le> 7 + 5 * length (w_courseIds w)
                + 5 * (\<Sum>i<length (w_courseIds w). length (assignments w i))
       \<and> (\<not> listing_fails w \<longrightarrow>
            exit_status s \<noteq> Some 1 \<and> (\<exists>us. exit_status (run w s us) = Some 0))"
proof -
  have inv: "invariant w s" unfolding s by (rule inv_reachable)
  have p: "mset (stdout s) \<subseteq># visible_lines w" using inv by (rule printed_visible)
  have ex: "exit_status t = None \<or> exit_status t = Some 0 \<or> exit_status t = Some 1"
    and md: "(mainpc t = M_done) = (exit_status t = Some 0)"
    and mc: "mainpc t = M_done \<longrightarrow> ch_closed t"
    if "invariant w t" for t
    using invD(6) [OF that] by (simp_all add: inv_exit_def)
  have a: "exit_status s = Some 0 \<longrightarrow>
            mset (stdout s) = visible_lines w \<and> mainpc s = M_done \<and> ch_closed s"
    using normal_exit_output [OF inv] md [OF inv] by simp
  have b: "mainpc s = M_done \<longrightarrow> ch_closed s" by (rule mc [OF inv])
  have c: "n_close s = (if ch_closed s then 1 else 0)"
    using invD(5) [OF inv] by (simp add: inv_closer_def)
  have d: "ch_closed s \<longrightarrow> (\<forall>i<length (w_courseIds w). listerpc s i = L_done)"
    using closed_all_done(2) [OF inv] by (simp add: ncourses_def)
  have e: "\<forall>i. listerpc s i = L_ret \<or> listerpc s i = L_done \<longrightarrow>
              (\<forall>j<length (assignments w i). workerpc s i j = W_done)"
  proof (intro allI impI)
    fix i j
    assume pc: "listerpc s i = L_ret \<or> listerpc s i = L_done"
      and j: "j < length (assignments w i)"
    have lo: "lister_ok w i (listerpc s i) (workerpc s i)"
      using invD(4) [OF inv] by (simp add: inv_lister_def)
    from pc show "workerpc s i j = W_done"
    proof
      assume "listerpc s i = L_ret"
      with lo j show ?thesis by (simp add: nworks_def)
    next
      assume "listerpc s i = L_done"
      with lo j show ?thesis by (simp add: nworks_def)
    qed
  qed
  have f: "exit_status s = None \<or> exit_status s = Some 0 \<or> exit_status s = Some 1"
    by (rule ex [OF inv])
  have g: "exit_status s = None \<longrightarrow> (\<exists>t. step w s t \<noteq> None)"
    using progress [OF inv] by simp
  have "steps_taken w init ts + steps_left w (run w init ts) \<le> steps_left w init"
    using inv_init by (rule steps_bounded)
  then have h: "steps_taken w init ts
            \<le> 7 + 5 * length (w_courseIds w)
                + 5 * (\<Sum>i<length (w_courseIds w). length (assignments w i))"
    by (simp add: steps_left_init)
  have k: "\<not> listing_fails w \<longrightarrow>
            exit_status s \<noteq> Some 1 \<and> (\<exists>us. exit_status (run w s us) = Some 0)"
  proof
    assume nf: "\<not> listing_fails w"
    have n1: "exit_status s \<noteq> Some 1"
      using exit_1_reachable [of w ts] nf by (auto simp: s)
    obtain us where us: "exit_status (run w s us) \<noteq> None"
      using can_finish [OF inv] by blast
    have "run w s us = run w init (ts @ us)"
      unfolding s by (simp add: run_append)
    then have "exit_status (run w s us) \<noteq> Some 1"
      using exit_1_reachable [of w "ts @ us"] nf by auto
    moreover have "invariant w (run w s us)" using inv by (rule inv_run)
    ultimately have "exit_status (run w s us) = Some 0" using ex [of "run w s us"] us by auto
    then have "\<exists>us. exit_status (run w s us) = Some 0" ..
    with n1 show "exit_status s \<noteq> Some 1 \<and> (\<exists>us. exit_status (run w s us) = Some 0)" ..
  qed
  from p a b c d e f g h k show ?thesis by blast
qed

theorem each_visible_assignment_printed_once_witness:
  "exit_status (run (example_world [''C3'', ''C2'']) init normal_run) = Some 0
   \<and> mainpc (run (example_world [''C3'', ''C2'']) init normal_run) = M_done
   \<and> stdout (run (example_world [''C3'', ''C2'']) init normal_run)
       = [''Report (A4) link:https://c/A4'' @ [CHR 0x0A], ''Report (A2) link:https://c/A2'' @ [CHR 0x0A]]
   \<and> mset (stdout (run (example_world [''C3'', ''C2'']) init normal_run))
       = visible_lines (example_world [''C3'', ''C2''])
   \<and> ch_closed (run (example_world [''C3'', ''C2'']) init normal_run)
   \<and> n_close (run (example_world [''C3'', ''C2'']) init normal_run) = 1
   \<and> listerpc (run (example_world [''C3'', ''C2'']) init normal_run) 0 = L_done
   \<and> workerpc (run (example_world [''C3'', ''C2'']) init normal_run) 0 1 = W_done
   \<and> steps_taken (example_world [''C3'', ''C2'']) init normal_run = 25
   \<and> \<not> listing_fails (example_world [''C3'', ''C2''])
   \<and> exit_status (run (example_world [''C3'', ''C2'']) init []) = None
   \<and> step (example_world [''C3'', ''C2'']) (run (example_world [''C3'', ''C2'']) init []) Main \<noteq> None"
proof -
  have "step (example_world [''C3'', ''C2'']) init Main \<noteq> None"
    by (simp add: step_defs init_def example_world_fields)
  moreover have "exit_status init = None" by (simp add: init_def)
  ultimately show ?thesis
    using each_visible_assignment_printed_once [OF refl, of "example_world [''C3'', ''C2'']" normal_run]
      each_visible_assignment_printed_once [OF refl, of "example_world [''C3'', ''C2'']" "[]"]
    by (simp add: normal_run_state example_lines normal_run_steps example_no_listing_fails)
qed

text \<open>
  The lines of the visible assignments are the lines of what the listers publish: the
  step model of the goroutine of a course and the function \<open>listCourseWorkFromCourseId\<close>
  of the lister agree on what is sent.
\<close>

lemma visible_lines_listers:
  "visible_lines w
     = image_mset line_of
         (\<Sum>i<ncourses w.
            fst (snd (listCourseWorkFromCourseId (w_srv w) (w_clocks w i) (w_courseIds w ! i))))"
proof -
  have "image_mset line_of (\<Sum>j<n. if visible w i j then {#assignments w i ! j#} else {#})
          = (\<Sum>j<n. if visible w i j then {#line_of (assignments w i ! j)#} else {#})" for i n
    by (induction n) simp_all
  moreover have "image_mset line_of (\<Sum>i<n. F i) = (\<Sum>i<n. image_mset line_of (F i))"
    for n and F :: "nat \<Rightarrow> CourseWork multiset"
    by (induction n) simp_all
  ultimately show ?thesis
    by (simp add: visible_lines_def lister_sends_visible)
qed


text \<open>
  Claim C9. Whenever the filter returns an error, its boolean result is false: it
  never says visible together with an error.
\<close>

theorem error_implies_not_visible:
  assumes "snd (fst (isCourseworkVisible srv clk c)) \<noteq> None"
  shows "\<not> fst (fst (isCourseworkVisible srv clk c))"
proof (cases "Parse_date (case DueDate c of
                 Some dd \<Rightarrow> Sprintf_date (Year dd) (Month dd) (Day dd)
               | None \<Rightarrow> Format_date (fst clk))")
  case (Inl err)
  then show ?thesis by (simp add: isCourseworkVisible_def)
next
  case (Inr parsedDate)
  show ?thesis
  proof (cases "StudentSubmissions_List srv (CourseId c) (Id_cw c)")
    case (Inl err)
    with Inr show ?thesis by (simp add: isCourseworkVisible_def Let_def)
  next
    case lookup: (Inr wr)
    with Inr assms show ?thesis
      by (simp add: isCourseworkVisible_def Let_def split: if_splits)
  qed
qed

theorem error_implies_not_visible_witness:
  "snd (fst (isCourseworkVisible example_srv (japan_morning, japan_morning) A5)) \<noteq> None
   \<and> \<not> fst (fst (isCourseworkVisible example_srv (japan_morning, japan_morning) A5))"
proof -
  have e: "snd (fst (isCourseworkVisible example_srv (japan_morning, japan_morning) A5)) \<noteq> None"
    by (simp add: example_checks)
  from error_implies_not_visible [OF e] e show ?thesis by simp
qed

text \<open>
  Claim C10. When the fields of a due date do not form a date that parses in the
  format YYYY-MM-DD, the filter returns false together with the error of
  \<open>time.Parse\<close> and makes no remote call; the goroutine of the assignment sends
  nothing on the channel, and the assignment is not among what the lister publishes,
  so nothing is printed for it. The failure is not fatal: the lister returns, and what
  it publishes is what the goroutines of the other assignments of the course publish.
\<close>

theorem unparseable_due_date_is_soft:
  assumes due: "DueDate c = Some dd"
    and bad: "\<not> date_ok (Year dd) (Month dd) (Day dd)"
    and listing: "CourseWork_List srv courseId = Inr (xs @ c # ys)"
  shows "Parse_date (Sprintf_date (Year dd) (Month dd) (Day dd))
           = Inl (ParseError (Sprintf_date (Year dd) (Month dd) (Day dd)))
       \<and> isCourseworkVisible srv (clks (length xs)) c
           = ((False, Some (ParseError (Sprintf_date (Year dd) (Month dd) (Day dd)))), [])
       \<and> check_and_send srv (clks (length xs)) c = ({#}, {#})
       \<and> fst (listCourseWorkFromCourseId srv clks courseId) = Returned
       \<and> fst (snd (listCourseWorkFromCourseId srv clks courseId))
           = fst (spawn_checks srv clks 0 xs) + fst (spawn_checks srv clks (Suc (length xs)) ys)
       \<and> c \<notin># fst (snd (listCourseWorkFromCourseId srv clks courseId))"
proof -
  have p: "Parse_date (Sprintf_date (Year dd) (Month dd) (Day dd))
             = Inl (ParseError (Sprintf_date (Year dd) (Month dd) (Day dd)))"
    using bad by (simp add: Parse_Sprintf_date)
  have v: "isCourseworkVisible srv (clks (length xs)) c
             = ((False, Some (ParseError (Sprintf_date (Year dd) (Month dd) (Day dd)))), [])"
    using bad by (simp add: isCourseworkVisible_due [OF due])
  then have s: "check_and_send srv (clks (length xs)) c = ({#}, {#})"
    by (simp add: check_and_send_def)
  then have s': "fst (check_and_send srv (clks (length xs)) c) = {#}" by simp
  have n: "c \<notin># fst (snd (listCourseWorkFromCourseId srv clks courseId))"
    using lister_sent [of c srv clks courseId] unparseable_never_visible [OF due bad]
    by blast
  from p v s n lister_returns(1) [OF listing] lister_skips [where clks = clks, OF listing s']
  show ?thesis by simp
qed

theorem unparseable_due_date_is_soft_witness:
  "DueDate A6 = Some \<lparr>Year = 2024, Month = 13, Day = 1\<rparr>
   \<and> \<not> date_ok 2024 13 1
   \<and> CourseWork_List example_srv ''C4'' = Inr [A2, A6, A4]
   \<and> Parse_date ''2024-13-01'' = Inl (ParseError ''2024-13-01'')
   \<and> isCourseworkVisible example_srv (japan_morning, japan_morning) A6
       = ((False, Some (ParseError ''2024-13-01'')), [])
   \<and> check_and_send example_srv (japan_morning, japan_morning) A6 = ({#}, {#})
   \<and> fst (listCourseWorkFromCourseId example_srv (\<lambda>j. (japan_morning, japan_morning)) ''C4'')
       = Returned
   \<and> fst (snd (listCourseWorkFromCourseId example_srv (\<lambda>j. (japan_morning, japan_morning)) ''C4''))
       = {#A2, A4#}
   \<and> A6 \<notin># fst (snd (listCourseWorkFromCourseId example_srv
                                (\<lambda>j. (japan_morning, japan_morning)) ''C4''))"
proof -
  have due: "DueDate A6 = Some \<lparr>Year = 2024, Month = 13, Day = 1\<rparr>"
    by (simp add: example_fields)
  have bad: "\<not> date_ok (Year \<lparr>Year = 2024, Month = 13, Day = 1\<rparr>)
      (Month \<lparr>Year = 2024, Month = 13, Day = 1\<rparr>) (Day \<lparr>Year = 2024, Month = 13, Day = 1\<rparr>)"
    by (simp add: date_ok_examples)
  from unparseable_due_date_is_soft [where clks = "\<lambda>j. (japan_morning, japan_morning)",
      OF due bad example_listings(4)] due bad example_listings(4)
  show ?thesis by (simp add: example_sends Sprintf_date_examples example_distinct)
qed

end
